theory Spec2Isabelle
  imports Main "HOL-Library.AList"
begin

section \<open>JavaScript values and the JSON codec of the platform\<close>

text \<open>
  The worker (\<^verbatim>\<open>src/worker.js\<close>) keeps one JSON array as text under the key
  \<^verbatim>\<open>websites\<close> of a key-value store, and every operation goes through
  \<^verbatim>\<open>JSON.parse\<close> and \<^verbatim>\<open>JSON.stringify\<close>. The values the worker handles are the
  values \<^verbatim>\<open>JSON.parse\<close> returns, and \<^verbatim>\<open>undefined\<close> for a field that a request
  does not carry.

  Numbers are integers here. JavaScript numbers are IEEE doubles; an integer of absolute
  value at most \<open>2^53\<close> is represented exactly, and that is the range of \<open>JNum\<close> the
  codec accepts. Strings are byte strings, and the codec accepts the ASCII range. An
  object is the list of its properties in creation order.
\<close>

datatype json =
    JUndefined
  | JNull
  | JBool bool
  | JNum int
  | JStr string
  | JArr "json list"
  | JObj "(string \<times> json) list"

text \<open>
  The outcome of a platform operation: a value, a JavaScript exception, or \<open>Beyond\<close>
  where the program's behaviour depends on something this development does not cover
  (floating-point numbers, text outside ASCII, the coercion of a string to a number, the
  enumeration order of integer-like property names). \<open>Beyond\<close> never stands for an
  error of the program: no theorem below draws a conclusion from it.
\<close>

datatype 'a js = Ok 'a | Thrown | Beyond

definition bind_js :: "'a js \<Rightarrow> ('a \<Rightarrow> 'b js) \<Rightarrow> 'b js" where
  "bind_js r f = (case r of Ok x \<Rightarrow> f x | Thrown \<Rightarrow> Thrown | Beyond \<Rightarrow> Beyond)"

definition map_js :: "('a \<Rightarrow> 'b) \<Rightarrow> 'a js \<Rightarrow> 'b js" where
  "map_js f r = (case r of Ok x \<Rightarrow> Ok (f x) | Thrown \<Rightarrow> Thrown | Beyond \<Rightarrow> Beyond)"

subsection \<open>\<^verbatim>\<open>JSON.stringify\<close>\<close>

definition dquote :: char where
  "dquote = CHR 0x22"

definition backslash :: char where
  "backslash = CHR 0x5C"

definition digit_char :: "nat \<Rightarrow> char" where
  "digit_char d = ''0123456789abcdef'' ! d"

text \<open>The decimal digits of a natural number, without leading zeros.\<close>

fun digits :: "nat \<Rightarrow> string" where
  "digits n =
     (if n < 10 then [digit_char n]
      else digits (n div 10) @ [digit_char (n mod 10)])"

declare digits.simps [simp del]

text \<open>
  \<^verbatim>\<open>QuoteJSONString\<close>: the quote and the backslash are escaped, the control characters
  have their short escapes or \<^verbatim>\<open>\u00xx\<close>, every other character stands for itself.
\<close>

definition escape :: "char \<Rightarrow> string" where
  "escape c =
     (if c = dquote then [backslash, dquote]
      else if c = backslash then [backslash, backslash]
      else if c = CHR 0x08 then [backslash, CHR ''b'']
      else if c = CHR 0x09 then [backslash, CHR ''t'']
      else if c = CHR 0x0A then [backslash, CHR ''n'']
      else if c = CHR 0x0C then [backslash, CHR ''f'']
      else if c = CHR 0x0D then [backslash, CHR ''r'']
      else if (of_char c :: nat) < 32 then
        [backslash, CHR ''u'', CHR ''0'', CHR ''0'',
         digit_char ((of_char c :: nat) div 16), digit_char ((of_char c :: nat) mod 16)]
      else [c])"

definition quote :: "string \<Rightarrow> string" where
  "quote s = dquote # concat (map escape s) @ [dquote]"

fun join :: "'a list \<Rightarrow> 'a list list \<Rightarrow> 'a list" where
  "join sep [] = []"
| "join sep [x] = x"
| "join sep (x # y # ys) = x @ sep @ join sep (y # ys)"

text \<open>
  \<^verbatim>\<open>JSON.stringify\<close> of a value. An \<^verbatim>\<open>undefined\<close> element of an array is written
  as \<^verbatim>\<open>null\<close> and a property whose value is \<^verbatim>\<open>undefined\<close> is left out. The worker
  calls it on arrays and objects only, so the first equation is reached for array
  elements only.
\<close>

fun JSON_stringify :: "json \<Rightarrow> string" where
  "JSON_stringify JUndefined = ''null''"
| "JSON_stringify JNull = ''null''"
| "JSON_stringify (JBool b) = (if b then ''true'' else ''false'')"
| "JSON_stringify (JNum n) = (if n < 0 then CHR ''-'' # digits (nat (- n)) else digits (nat n))"
| "JSON_stringify (JStr s) = quote s"
| "JSON_stringify (JArr xs) = ''['' @ join '','' (map JSON_stringify xs) @ '']''"
| "JSON_stringify (JObj kvs) =
     ''{'' @ join '',''
        (map (\<lambda>kv. quote (fst kv) @ '':'' @ JSON_stringify (snd kv))
          (filter (\<lambda>kv. snd kv \<noteq> JUndefined) kvs)) @ ''}''"

subsection \<open>\<^verbatim>\<open>JSON.parse\<close>: the lexer\<close>

datatype token =
    LBrack | RBrack | LBrace | RBrace | Comma | Colon
  | TNull | TTrue | TFalse | TNum int | TStr string

definition is_digit :: "char \<Rightarrow> bool" where
  "is_digit c = (48 \<le> (of_char c :: nat) \<and> (of_char c :: nat) \<le> 57)"

definition is_space :: "char \<Rightarrow> bool" where
  "is_space c = (c = CHR '' '' \<or> c = CHR 0x09 \<or> c = CHR 0x0A \<or> c = CHR 0x0D)"

definition is_hex :: "char \<Rightarrow> bool" where
  "is_hex c = (is_digit c \<or> c \<in> set ''abcdefABCDEF'')"

definition int_of_digits :: "string \<Rightarrow> int" where
  "int_of_digits ds = foldl (\<lambda>a c. 10 * a + ((of_char c :: int) - 48)) 0 ds"

definition unescape :: "char \<Rightarrow> char option" where
  "unescape e =
     (if e = dquote then Some dquote
      else if e = backslash then Some backslash
      else if e = CHR ''/'' then Some CHR ''/''
      else if e = CHR ''b'' then Some (CHR 0x08)
      else if e = CHR ''f'' then Some (CHR 0x0C)
      else if e = CHR ''n'' then Some (CHR 0x0A)
      else if e = CHR ''r'' then Some (CHR 0x0D)
      else if e = CHR ''t'' then Some (CHR 0x09)
      else None)"

text \<open>
  The characters of a string literal after its opening quote, up to the closing quote,
  and the text after it. A raw control character and an unknown escape are syntax
  errors. A \<^verbatim>\<open>\u\<close> escape with four hexadecimal digits and a byte outside ASCII are
  valid JSON that this development does not decode.
\<close>

fun lex_string :: "string \<Rightarrow> (string \<times> string) js" where
  "lex_string [] = Thrown"
| "lex_string (c # cs) =
     (if c = dquote then Ok ([], cs)
      else if c = backslash then
        (case cs of
           [] \<Rightarrow> Thrown
         | e # cs' \<Rightarrow>
             if e = CHR ''u'' then
               (if 4 \<le> length cs' \<and> list_all is_hex (take 4 cs') then Beyond else Thrown)
             else
               (case unescape e of
                  None \<Rightarrow> Thrown
                | Some ch \<Rightarrow> map_js (\<lambda>(s, r). (ch # s, r)) (lex_string cs')))
      else if (of_char c :: nat) < 32 then Thrown
      else if 128 \<le> (of_char c :: nat) then Beyond
      else map_js (\<lambda>(s, r). (c # s, r)) (lex_string cs))"

text \<open>
  A number literal, its sign already read: \<open>ds\<close> are the leading digits of the text
  and \<open>rest\<close> what follows them. A fraction or an exponent, and an integer that a
  double does not hold exactly, are beyond the integers of this development.
\<close>

definition lex_number :: "bool \<Rightarrow> string \<Rightarrow> string \<Rightarrow> token js" where
  "lex_number neg ds rest =
     (if ds = [] then Thrown
      else if hd ds = CHR ''0'' \<and> 1 < length ds then Thrown
      else if rest \<noteq> [] \<and> hd rest \<in> set ''.eE'' then Beyond
      else if 2 ^ 53 < int_of_digits ds then Beyond
      else Ok (TNum (if neg then - int_of_digits ds else int_of_digits ds)))"

definition starts :: "string \<Rightarrow> string \<Rightarrow> bool" where
  "starts p s = (take (length p) s = p)"

lemma lex_string_length: "lex_string cs = Ok (s, r) \<Longrightarrow> length r < Suc (length cs)"
proof (induction cs arbitrary: s r rule: lex_string.induct)
  case 1
  then show ?case by simp
next
  case (2 c cs)
  show ?case
  proof (cases "c = dquote")
    case True
    with 2 show ?thesis by auto
  next
    case nq: False
    show ?thesis
    proof (cases "c = backslash")
      case True
      with nq 2 show ?thesis
        by (fastforce simp: map_js_def split: list.splits if_splits option.splits js.splits)
    next
      case False
      with nq 2 show ?thesis
        by (fastforce simp: map_js_def split: if_splits js.splits)
    qed
  qed
qed

function lex :: "string \<Rightarrow> token list js" where
  "lex [] = Ok []"
| "lex (c # cs) =
     (if is_space c then lex cs
      else if c = CHR ''['' then map_js ((#) LBrack) (lex cs)
      else if c = CHR '']'' then map_js ((#) RBrack) (lex cs)
      else if c = CHR ''{'' then map_js ((#) LBrace) (lex cs)
      else if c = CHR ''}'' then map_js ((#) RBrace) (lex cs)
      else if c = CHR '','' then map_js ((#) Comma) (lex cs)
      else if c = CHR '':'' then map_js ((#) Colon) (lex cs)
      else if c = dquote then
        (case lex_string cs of
           Ok (s, rest) \<Rightarrow> map_js ((#) (TStr s)) (lex rest)
         | Thrown \<Rightarrow> Thrown
         | Beyond \<Rightarrow> Beyond)
      else if starts ''null'' (c # cs) then map_js ((#) TNull) (lex (drop 3 cs))
      else if starts ''true'' (c # cs) then map_js ((#) TTrue) (lex (drop 3 cs))
      else if starts ''false'' (c # cs) then map_js ((#) TFalse) (lex (drop 4 cs))
      else if c = CHR ''-'' then
        (case lex_number True (takeWhile is_digit cs) (dropWhile is_digit cs) of
           Ok t \<Rightarrow> map_js ((#) t) (lex (dropWhile is_digit cs))
         | Thrown \<Rightarrow> Thrown
         | Beyond \<Rightarrow> Beyond)
      else if is_digit c then
        (case lex_number False (c # takeWhile is_digit cs) (dropWhile is_digit cs) of
           Ok t \<Rightarrow> map_js ((#) t) (lex (dropWhile is_digit cs))
         | Thrown \<Rightarrow> Thrown
         | Beyond \<Rightarrow> Beyond)
      else if 128 \<le> (of_char c :: nat) then Beyond
      else Thrown)"
  by pat_completeness auto
termination
proof (relation "measure length")
  fix c cs x s rest
  assume "lex_string cs = Ok x" "(s, rest) = x"
  then have "lex_string cs = Ok (s, rest)" by simp
  from lex_string_length [OF this] show "(rest, c # cs) \<in> measure length" by simp
qed (auto simp: length_dropWhile_le less_Suc_eq_le)

subsection \<open>\<^verbatim>\<open>JSON.parse\<close>: the parser\<close>

text \<open>
  A property name made of digits only may be an integer index, which JavaScript
  enumerates before the other properties whatever its creation order.
\<close>

definition index_like :: "string \<Rightarrow> bool" where
  "index_like k = (k \<noteq> [] \<and> list_all is_digit k)"

text \<open>
  Recursive descent over the tokens. The first argument bounds the number of calls;
  running out of it is \<open>Beyond\<close>, never a syntax error. \<open>parse_elems\<close> reads the rest
  of an array after an element and \<open>parse_members\<close> the rest of an object after a
  property (the first property is read as if a comma stood before it); a repeated property name keeps its first place and takes the last value, as
  \<^verbatim>\<open>CreateDataProperty\<close> does.
\<close>

fun parse_value :: "nat \<Rightarrow> token list \<Rightarrow> (json \<times> token list) js"
  and parse_elems :: "nat \<Rightarrow> json list \<Rightarrow> token list \<Rightarrow> (json \<times> token list) js"
  and parse_members :: "nat \<Rightarrow> (string \<times> json) list \<Rightarrow> token list \<Rightarrow> (json \<times> token list) js"
where
  "parse_value 0 ts = Beyond"
| "parse_value (Suc n) ts =
     (case ts of
        [] \<Rightarrow> Thrown
      | t # r \<Rightarrow>
          (case t of
             TNull \<Rightarrow> Ok (JNull, r)
           | TTrue \<Rightarrow> Ok (JBool True, r)
           | TFalse \<Rightarrow> Ok (JBool False, r)
           | TNum i \<Rightarrow> Ok (JNum i, r)
           | TStr s \<Rightarrow> Ok (JStr s, r)
           | LBrack \<Rightarrow>
               (if r \<noteq> [] \<and> hd r = RBrack then Ok (JArr [], tl r)
                else bind_js (parse_value n r) (\<lambda>(v, r'). parse_elems n [v] r'))
           | LBrace \<Rightarrow>
               (if r \<noteq> [] \<and> hd r = RBrace then Ok (JObj [], tl r)
                else parse_members n [] (Comma # r))
           | _ \<Rightarrow> Thrown))"
| "parse_elems 0 acc ts = Beyond"
| "parse_elems (Suc n) acc ts =
     (case ts of
        [] \<Rightarrow> Thrown
      | t # r \<Rightarrow>
          if t = RBrack then Ok (JArr acc, r)
          else if t = Comma then
            bind_js (parse_value n r) (\<lambda>(v, r'). parse_elems n (acc @ [v]) r')
          else Thrown)"
| "parse_members 0 acc ts = Beyond"
| "parse_members (Suc n) acc ts =
     (case ts of
        [] \<Rightarrow> Thrown
      | t # r \<Rightarrow>
          if t = RBrace then Ok (JObj acc, r)
          else if t = Comma then
            (case r of
               TStr k # Colon # r' \<Rightarrow>
                 if index_like k then Beyond
                 else bind_js (parse_value n r')
                        (\<lambda>(v, r''). parse_members n (AList.update k v acc) r'')
             | _ \<Rightarrow> Thrown)
          else Thrown)"

text \<open>
  \<^verbatim>\<open>JSON.parse\<close>: \<open>Ok v\<close> for the value of the text, \<open>Thrown\<close> for the
  \<^verbatim>\<open>SyntaxError\<close>. Every call of the parser reads a token, so the number of
  tokens bounds the calls.
\<close>

definition JSON_parse :: "string \<Rightarrow> json js" where
  "JSON_parse s =
     bind_js (lex s) (\<lambda>ts.
       bind_js (parse_value (Suc (Suc (length ts))) ts) (\<lambda>(v, r).
         if r = [] then Ok v else Thrown))"

text \<open>
  The values of JSON texts: what \<open>JSON_parse\<close> returns, and what \<open>JSON_stringify\<close>
  followed by \<open>JSON_parse\<close> gives back unchanged.
\<close>

definition str_ok :: "string \<Rightarrow> bool" where
  "str_ok s =
     list_all (\<lambda>c. (32 \<le> (of_char c :: nat) \<and> (of_char c :: nat) < 128)
        \<or> c \<in> set [CHR 0x08, CHR 0x09, CHR 0x0A, CHR 0x0C, CHR 0x0D]) s"

fun json_ok :: "json \<Rightarrow> bool" where
  "json_ok JUndefined = False"
| "json_ok JNull = True"
| "json_ok (JBool b) = True"
| "json_ok (JNum n) = (\<bar>n\<bar> \<le> 2 ^ 53)"
| "json_ok (JStr s) = str_ok s"
| "json_ok (JArr xs) = list_all json_ok xs"
| "json_ok (JObj kvs) =
     (distinct (map fst kvs)
      \<and> list_all (\<lambda>kv. str_ok (fst kv) \<and> \<not> index_like (fst kv) \<and> json_ok (snd kv)) kvs)"

section \<open>The worker\<close>

subsection \<open>Requests, responses and the store\<close>

text \<open>
  A request as \<^verbatim>\<open>fetch\<close> reads it: \<^verbatim>\<open>request.method\<close>, the path
  \<^verbatim>\<open>new URL(request.url).pathname\<close> and the text of the body. A response is the
  body, the status (200 when the code gives none) and the headers the code passes.
\<close>

record request =
  req_method :: string
  pathname :: string
  body_text :: string

record response =
  status :: nat
  body :: string
  headers :: "(string \<times> string) list"

text \<open>
  \<^verbatim>\<open>env.WEBSITES_KV\<close>: the key-value store, and the list of the \<^verbatim>\<open>put\<close> calls made
  on it, oldest first. \<^verbatim>\<open>get\<close> answers \<^verbatim>\<open>null\<close> (\<open>None\<close>) for a key that is
  absent. The store answers every call: a failure of the store itself is not part of
  this development.
\<close>

record env =
  WEBSITES_KV :: "string \<Rightarrow> string option"
  puts :: "(string \<times> string) list"

definition KV_get :: "env \<Rightarrow> string \<Rightarrow> string option" where
  "KV_get e k = WEBSITES_KV e k"

definition KV_put :: "string \<Rightarrow> string \<Rightarrow> env \<Rightarrow> env" where
  "KV_put k v e = e\<lparr>WEBSITES_KV := (WEBSITES_KV e)(k \<mapsto> v), puts := puts e @ [(k, v)]\<rparr>"

definition corsHeaders :: "(string \<times> string) list" where
  "corsHeaders =
     [(''Access-Control-Allow-Origin'', ''*''),
      (''Access-Control-Allow-Methods'', ''POST, GET, OPTIONS''),
      (''Access-Control-Allow-Headers'', ''Content-Type'')]"

definition startsWith :: "string \<Rightarrow> string \<Rightarrow> bool" where
  "startsWith s p = starts p s"

definition endsWith :: "string \<Rightarrow> string \<Rightarrow> bool" where
  "endsWith s p = (length p \<le> length s \<and> drop (length s - length p) s = p)"

subsection \<open>JavaScript operations the handlers use\<close>

text \<open>
  Reading one of the properties \<^verbatim>\<open>action\<close>, \<^verbatim>\<open>data\<close>, \<^verbatim>\<open>index\<close> and
  \<^verbatim>\<open>id\<close>, the only ones the worker reads this way. On \<^verbatim>\<open>null\<close> and
  \<^verbatim>\<open>undefined\<close> the access throws a \<^verbatim>\<open>TypeError\<close>; a string, a number, a boolean
  and an array have no property of these names.
\<close>

definition get_prop :: "json \<Rightarrow> string \<Rightarrow> json js" where
  "get_prop v k =
     (case v of
        JUndefined \<Rightarrow> Thrown
      | JNull \<Rightarrow> Thrown
      | JObj kvs \<Rightarrow> Ok (case map_of kvs k of None \<Rightarrow> JUndefined | Some x \<Rightarrow> x)
      | _ \<Rightarrow> Ok JUndefined)"

text \<open>
  \<^verbatim>\<open>a === b\<close>, for a value of the stored array and a value of the request. Arrays
  and objects are compared by identity, and the two come from two calls of
  \<^verbatim>\<open>JSON.parse\<close>, so they are never the same object.
\<close>

fun strict_eq :: "json \<Rightarrow> json \<Rightarrow> bool" where
  "strict_eq JUndefined JUndefined = True"
| "strict_eq JNull JNull = True"
| "strict_eq (JBool a) (JBool b) = (a = b)"
| "strict_eq (JNum a) (JNum b) = (a = b)"
| "strict_eq (JStr a) (JStr b) = (a = b)"
| "strict_eq _ _ = False"

text \<open>\<^verbatim>\<open>Array.prototype.filter\<close> with a callback that may throw.\<close>

fun filter_js :: "('a \<Rightarrow> bool js) \<Rightarrow> 'a list \<Rightarrow> 'a list js" where
  "filter_js p [] = Ok []"
| "filter_js p (x # xs) =
     bind_js (p x) (\<lambda>b. map_js (\<lambda>ys. if b then x # ys else ys) (filter_js p xs))"

text \<open>
  The number an index is compared as. \<^verbatim>\<open>undefined\<close> is \<^verbatim>\<open>NaN\<close>, \<^verbatim>\<open>null\<close> is 0
  and a boolean 0 or 1; the conversion of a string, an array or an object is not covered.
\<close>

datatype number = NaN | Num int

definition ToNumber :: "json \<Rightarrow> number js" where
  "ToNumber v =
     (case v of
        JUndefined \<Rightarrow> Ok NaN
      | JNull \<Rightarrow> Ok (Num 0)
      | JBool b \<Rightarrow> Ok (Num (if b then 1 else 0))
      | JNum i \<Rightarrow> Ok (Num i)
      | _ \<Rightarrow> Beyond)"

text \<open>\<^verbatim>\<open>index >= 0\<close>, the left operand of the range check.\<close>

definition index_ge_0 :: "number \<Rightarrow> bool" where
  "index_ge_0 i = (case i of NaN \<Rightarrow> False | Num k \<Rightarrow> 0 \<le> k)"

text \<open>\<^verbatim>\<open>index >= 0 && index < length\<close>; a comparison with \<^verbatim>\<open>NaN\<close> is false.\<close>

definition index_in_range :: "number \<Rightarrow> nat \<Rightarrow> bool" where
  "index_in_range i len = (case i of NaN \<Rightarrow> False | Num k \<Rightarrow> 0 \<le> k \<and> k < int len)"

text \<open>
  \<^verbatim>\<open>websitesArray[index] = websiteData\<close> for an index that passed the range check. A
  number names the element at that position; \<^verbatim>\<open>null\<close> and the booleans name the
  properties \<^verbatim>\<open>"null"\<close>, \<^verbatim>\<open>"true"\<close> and \<^verbatim>\<open>"false"\<close>, which are not elements
  and which \<^verbatim>\<open>JSON.stringify\<close> does not write.
\<close>

definition assign_index :: "json list \<Rightarrow> json \<Rightarrow> json \<Rightarrow> json list" where
  "assign_index xs index v = (case index of JNum i \<Rightarrow> xs[nat i := v] | _ \<Rightarrow> xs)"

text \<open>A \<^verbatim>\<open>try\<close> block whose \<^verbatim>\<open>catch\<close> returns \<open>h\<close>.\<close>

definition try_catch :: "'a js \<Rightarrow> 'a \<Rightarrow> 'a js" where
  "try_catch r h = (case r of Thrown \<Rightarrow> Ok h | _ \<Rightarrow> r)"

subsection \<open>The handlers\<close>

definition json_response :: "json \<Rightarrow> (string \<times> string) list \<Rightarrow> response" where
  "json_response v cors =
     \<lparr>status = 200, body = JSON_stringify v,
      headers = (''Content-Type'', ''application/json'') # cors\<rparr>"

definition success :: json where
  "success = JObj [(''success'', JBool True)]"

text \<open>
  \<^verbatim>\<open>websites ? JSON.parse(websites) : []\<close>, the first two lines of every handler
  (lines 72-73, 89-90, 109-110 and 136-137): the empty string is falsy, like \<^verbatim>\<open>null\<close>.
\<close>

definition read_websites :: "env \<Rightarrow> json js" where
  "read_websites e =
     (case KV_get e ''websites'' of
        None \<Rightarrow> Ok (JArr [])
      | Some websites \<Rightarrow> if websites = [] then Ok (JArr []) else JSON_parse websites)"

text \<open>\<^verbatim>\<open>handleGetRequest\<close>, lines 70-85.\<close>

definition handleGetRequest :: "env \<Rightarrow> (string \<times> string) list \<Rightarrow> (response \<times> env) js" where
  "handleGetRequest e cors =
     try_catch
       (bind_js (read_websites e) (\<lambda>websites.
          Ok (json_response (JObj [(''websites'', websites)]) cors, e)))
       (\<lparr>status = 500, body = ''Error getting websites'', headers = cors\<rparr>, e)"

text \<open>
  \<^verbatim>\<open>handleAddRequest\<close>, lines 87-105. \<^verbatim>\<open>push\<close> exists on arrays only: on any
  other value the call throws.
\<close>

definition handleAddRequest ::
  "json \<Rightarrow> env \<Rightarrow> (string \<times> string) list \<Rightarrow> (response \<times> env) js" where
  "handleAddRequest websiteData e cors =
     try_catch
       (bind_js (read_websites e) (\<lambda>websitesArray.
          case websitesArray of
            JArr xs \<Rightarrow>
              Ok (json_response success cors,
                  KV_put ''websites'' (JSON_stringify (JArr (xs @ [websiteData]))) e)
          | _ \<Rightarrow> Thrown))
       (\<lparr>status = 500, body = ''Error adding website'', headers = cors\<rparr>, e)"

text \<open>
  \<^verbatim>\<open>handleUpdateRequest\<close>, lines 107-132. The range check is
  \<^verbatim>\<open>index >= 0 && index < websitesArray.length\<close>, and \<^verbatim>\<open>&&\<close> evaluates its
  right operand only when the left one is true. So when the index is negative or
  \<^verbatim>\<open>NaN\<close> the answer is 400 whatever the stored value is. Otherwise, when the stored
  value is not an array: \<^verbatim>\<open>null.length\<close> throws; a number and a boolean have no
  \<^verbatim>\<open>length\<close>, so the comparison is with \<^verbatim>\<open>undefined\<close> and false; the length
  of a string and of an object is not covered.
\<close>

definition handleUpdateRequest ::
  "json \<Rightarrow> json \<Rightarrow> env \<Rightarrow> (string \<times> string) list \<Rightarrow> (response \<times> env) js" where
  "handleUpdateRequest websiteData index e cors =
     try_catch
       (bind_js (read_websites e) (\<lambda>websitesArray.
          case websitesArray of
            JArr xs \<Rightarrow>
              bind_js (ToNumber index) (\<lambda>i.
                if index_in_range i (length xs) then
                  Ok (json_response success cors,
                      KV_put ''websites''
                        (JSON_stringify (JArr (assign_index xs index websiteData))) e)
                else Ok (\<lparr>status = 400, body = ''Invalid index'', headers = cors\<rparr>, e))
          | JUndefined \<Rightarrow>
              bind_js (ToNumber index) (\<lambda>i.
                if index_ge_0 i then Thrown
                else Ok (\<lparr>status = 400, body = ''Invalid index'', headers = cors\<rparr>, e))
          | JNull \<Rightarrow>
              bind_js (ToNumber index) (\<lambda>i.
                if index_ge_0 i then Thrown
                else Ok (\<lparr>status = 400, body = ''Invalid index'', headers = cors\<rparr>, e))
          | JBool _ \<Rightarrow>
              bind_js (ToNumber index) (\<lambda>i.
                Ok (\<lparr>status = 400, body = ''Invalid index'', headers = cors\<rparr>, e))
          | JNum _ \<Rightarrow>
              bind_js (ToNumber index) (\<lambda>i.
                Ok (\<lparr>status = 400, body = ''Invalid index'', headers = cors\<rparr>, e))
          | JStr _ \<Rightarrow>
              bind_js (ToNumber index) (\<lambda>i.
                if index_ge_0 i then Beyond
                else Ok (\<lparr>status = 400, body = ''Invalid index'', headers = cors\<rparr>, e))
          | JObj _ \<Rightarrow>
              bind_js (ToNumber index) (\<lambda>i.
                if index_ge_0 i then Beyond
                else Ok (\<lparr>status = 400, body = ''Invalid index'', headers = cors\<rparr>, e))))
       (\<lparr>status = 500, body = ''Error updating website'', headers = cors\<rparr>, e)"

text \<open>
  \<^verbatim>\<open>handleDeleteRequest\<close>, lines 134-152:
  \<^verbatim>\<open>websitesArray.filter(website => website.id !== websiteId)\<close>; \<^verbatim>\<open>filter\<close>
  exists on arrays only.
\<close>

definition handleDeleteRequest ::
  "json \<Rightarrow> env \<Rightarrow> (string \<times> string) list \<Rightarrow> (response \<times> env) js" where
  "handleDeleteRequest websiteId e cors =
     try_catch
       (bind_js (read_websites e) (\<lambda>websitesArray.
          case websitesArray of
            JArr xs \<Rightarrow>
              bind_js
                (filter_js
                  (\<lambda>website. map_js (\<lambda>i. \<not> strict_eq i websiteId) (get_prop website ''id'')) xs)
                (\<lambda>filteredWebsites.
                  Ok (json_response success cors,
                      KV_put ''websites'' (JSON_stringify (JArr filteredWebsites)) e))
          | _ \<Rightarrow> Thrown))
       (\<lparr>status = 500, body = ''Error deleting website'', headers = cors\<rparr>, e)"

text \<open>
  \<^verbatim>\<open>handleApiRequest\<close>, lines 34-68. The body is parsed by \<^verbatim>\<open>request.json()\<close>;
  the \<^verbatim>\<open>switch\<close> compares the action with \<^verbatim>\<open>===\<close>.
\<close>

definition handleApiRequest ::
  "request \<Rightarrow> env \<Rightarrow> (string \<times> string) list \<Rightarrow> (response \<times> env) js" where
  "handleApiRequest req e cors =
     (if req_method req \<noteq> ''POST'' then
        Ok (\<lparr>status = 405, body = ''Method not allowed'', headers = cors\<rparr>, e)
      else
        try_catch
          (bind_js (JSON_parse (body_text req)) (\<lambda>data.
           bind_js (get_prop data ''action'') (\<lambda>action.
             if action = JStr ''get'' then handleGetRequest e cors
             else if action = JStr ''add'' then
               bind_js (get_prop data ''data'') (\<lambda>d. handleAddRequest d e cors)
             else if action = JStr ''update'' then
               bind_js (get_prop data ''data'') (\<lambda>d.
               bind_js (get_prop data ''index'') (\<lambda>i. handleUpdateRequest d i e cors))
             else if action = JStr ''delete'' then
               bind_js (get_prop data ''id'') (\<lambda>i. handleDeleteRequest i e cors)
             else Ok (\<lparr>status = 400, body = ''Invalid action'', headers = cors\<rparr>, e))))
          (\<lparr>status = 500, body = ''Error processing request'', headers = cors\<rparr>, e))"

subsection \<open>Static files and the entry point\<close>

text \<open>\<^verbatim>\<open>getContentType\<close>, lines 186-194.\<close>

definition getContentType :: "string \<Rightarrow> string" where
  "getContentType filePath =
     (if endsWith filePath ''.html'' then ''text/html''
      else if endsWith filePath ''.css'' then ''text/css''
      else if endsWith filePath ''.js'' then ''application/javascript''
      else if endsWith filePath ''.png'' then ''image/png''
      else if endsWith filePath ''.jpg'' \<or> endsWith filePath ''.jpeg'' then ''image/jpeg''
      else if endsWith filePath ''.svg'' then ''image/svg+xml''
      else ''application/octet-stream'')"

text \<open>
  \<^verbatim>\<open>serveStaticFile\<close>, lines 154-184. \<^verbatim>\<open>if (fileContent)\<close> is false for
  \<^verbatim>\<open>null\<close> and for the empty string.
\<close>

definition serveStaticFile :: "string \<Rightarrow> env \<Rightarrow> response \<times> env" where
  "serveStaticFile path e =
     (let filePath = (if startsWith path ''/'' then drop 1 path else path) in
      case KV_get e filePath of
        Some fileContent \<Rightarrow>
          if fileContent \<noteq> [] then
            (\<lparr>status = 200, body = fileContent,
              headers = [(''Content-Type'', getContentType filePath)]\<rparr>, e)
          else
            (\<lparr>status = 404, body = ''File not found'',
              headers = [(''Content-Type'', ''text/plain'')]\<rparr>, e)
      | None \<Rightarrow>
          (\<lparr>status = 404, body = ''File not found'',
            headers = [(''Content-Type'', ''text/plain'')]\<rparr>, e))"

text \<open>\<^verbatim>\<open>fetch\<close>, lines 3-32.\<close>

definition fetch :: "request \<Rightarrow> env \<Rightarrow> (response \<times> env) js" where
  "fetch req e =
     (let path = pathname req in
      if req_method req = ''OPTIONS'' then
        Ok (\<lparr>status = 200, body = ''OK'', headers = corsHeaders\<rparr>, e)
      else if req_method req = ''POST''
          \<and> (endsWith path ''/worker.js'' \<or> startsWith path ''/api/'') then
        handleApiRequest req e corsHeaders
      else if endsWith path ''.html'' \<or> endsWith path ''.css'' \<or> endsWith path ''.js''
          \<or> endsWith path ''.png'' \<or> endsWith path ''.jpg'' \<or> endsWith path ''.svg'' then
        Ok (serveStaticFile path e)
      else Ok (serveStaticFile ''/index.html'' e))"

subsection \<open>Notions the theorems use\<close>

text \<open>
  \<open>prop_of v k\<close> is the value of \<^verbatim>\<open>v.k\<close> where the access does not throw,
  \<open>has_field v k\<close> says that the object \<open>v\<close> has a property \<open>k\<close> of its own, and
  \<open>store_of v\<close> is a store that holds the text of \<open>v\<close> under the key
  \<^verbatim>\<open>websites\<close> and nothing else. \<open>is_array_text t\<close> says that \<open>t\<close> is the
  text of a JSON array, and \<open>collection_ok e\<close> that the key \<^verbatim>\<open>websites\<close> is absent
  or holds such a text. \<open>nullify\<close> is what \<^verbatim>\<open>JSON.stringify\<close> makes of an array
  element, and \<open>step_ok e e'\<close> relates a store to itself and to the store after one
  \<^verbatim>\<open>put\<close> of an array text under the key. \<open>is_primitive v\<close> says that \<open>v\<close>
  is not an array and not an object: on such values \<^verbatim>\<open>===\<close> is equality of values.
\<close>

definition prop_of :: "json \<Rightarrow> string \<Rightarrow> json" where
  "prop_of v k = (case get_prop v k of Ok x \<Rightarrow> x | _ \<Rightarrow> JUndefined)"


definition store_of :: "json \<Rightarrow> env" where
  "store_of v = \<lparr>WEBSITES_KV = [''websites'' \<mapsto> JSON_stringify v], puts = []\<rparr>"

definition is_array_text :: "string \<Rightarrow> bool" where
  "is_array_text t = (case JSON_parse t of Ok (JArr xs) \<Rightarrow> True | _ \<Rightarrow> False)"

definition collection_ok :: "env \<Rightarrow> bool" where
  "collection_ok e = (case KV_get e ''websites'' of None \<Rightarrow> True | Some t \<Rightarrow> is_array_text t)"

definition nullify :: "json \<Rightarrow> json" where
  "nullify v = (if v = JUndefined then JNull else v)"

definition step_ok :: "env \<Rightarrow> env \<Rightarrow> bool" where
  "step_ok e e' = (e' = e \<or> (\<exists>t. is_array_text t \<and> e' = KV_put ''websites'' t e))"

definition is_primitive :: "json \<Rightarrow> bool" where
  "is_primitive v = (case v of JArr _ \<Rightarrow> False | JObj _ \<Rightarrow> False | _ \<Rightarrow> True)"

subsection \<open>Notions the proofs about the codec use\<close>

text \<open>
  \<open>sep r\<close> says that the text \<open>r\<close> is empty or starts with a comma or a closing
  bracket, which is what follows a value in the output of \<open>JSON_stringify\<close>;
  \<open>pre ts\<close> puts the tokens \<open>ts\<close> before the result of the lexer; \<open>toks v\<close> are
  the tokens of the text of \<open>v\<close>. \<open>chr_ok\<close> and \<open>tok_ok\<close> are the characters and
  the tokens of the values that \<open>json_ok\<close> admits, and \<open>parse_ok n\<close> says that the
  parser, run with the bound \<open>n\<close> on such tokens, returns such values.
\<close>

definition sep :: "string \<Rightarrow> bool" where
  "sep r = (r = [] \<or> hd r \<in> set '',]}'')"

definition pre :: "token list \<Rightarrow> token list js \<Rightarrow> token list js" where
  "pre ts r = map_js (\<lambda>us. ts @ us) r"

fun toks :: "json \<Rightarrow> token list" where
  "toks JUndefined = [TNull]"
| "toks JNull = [TNull]"
| "toks (JBool b) = [if b then TTrue else TFalse]"
| "toks (JNum n) = [TNum n]"
| "toks (JStr s) = [TStr s]"
| "toks (JArr xs) = LBrack # tl (concat (map (\<lambda>x. Comma # toks x) xs)) @ [RBrack]"
| "toks (JObj kvs) =
     LBrace # tl (concat (map (\<lambda>kv. Comma # TStr (fst kv) # Colon # toks (snd kv)) kvs)) @ [RBrace]"

definition tok_ok :: "token \<Rightarrow> bool" where
  "tok_ok t = (case t of TNum i \<Rightarrow> \<bar>i\<bar> \<le> 2 ^ 53 | TStr s \<Rightarrow> str_ok s | _ \<Rightarrow> True)"

definition chr_ok :: "char \<Rightarrow> bool" where
  "chr_ok c = ((32 \<le> (of_char c :: nat) \<and> (of_char c :: nat) < 128)
     \<or> c \<in> set [CHR 0x08, CHR 0x09, CHR 0x0A, CHR 0x0C, CHR 0x0D])"

definition parse_ok :: "nat \<Rightarrow> bool" where
  "parse_ok n =
     ((\<forall>ts v r. list_all tok_ok ts \<longrightarrow> parse_value n ts = Ok (v, r)
          \<longrightarrow> json_ok v \<and> list_all tok_ok r)
    \<and> (\<forall>acc ts v r. list_all tok_ok ts \<longrightarrow> list_all json_ok acc
          \<longrightarrow> parse_elems n acc ts = Ok (v, r) \<longrightarrow> json_ok v \<and> list_all tok_ok r)
    \<and> (\<forall>acc ts v r. list_all tok_ok ts \<longrightarrow> json_ok (JObj acc)
          \<longrightarrow> parse_members n acc ts = Ok (v, r) \<longrightarrow> json_ok v \<and> list_all tok_ok r))"

section \<open>The codec gives back what it was given\<close>

subsection \<open>Digits\<close>

lemma digits_nonempty: "digits n \<noteq> []"
  by (subst digits.simps) simp

lemma digit_cases: "d < 10 \<Longrightarrow> d \<in> {0, 1, 2, 3, 4, 5, 6, 7, 8, 9::nat}"
  by auto

lemma is_digit_char_of: "d < 10 \<Longrightarrow> is_digit (digit_char d)"
  using digit_cases [of d] by (auto simp: is_digit_def digit_char_def)

lemma digits_all: "list_all is_digit (digits n)"
proof (induction n rule: digits.induct)
  case (1 n)
  show ?case
  proof (cases "n < 10")
    case True
    then show ?thesis by (subst digits.simps) (simp add: is_digit_char_of)
  next
    case False
    with 1 show ?thesis
      by (subst digits.simps) (simp add: is_digit_char_of)
  qed
qed

lemma int_of_digits_snoc:
  "int_of_digits (ds @ [c]) = 10 * int_of_digits ds + ((of_char c :: int) - 48)"
  by (simp add: int_of_digits_def)

lemma digit_value: "d < 10 \<Longrightarrow> (of_char (digit_char d) :: int) - 48 = int d"
  using digit_cases [of d] by (auto simp: digit_char_def)

lemma int_of_digits_digits: "int_of_digits (digits n) = int n"
proof (induction n rule: digits.induct)
  case (1 n)
  show ?case
  proof (cases "n < 10")
    case True
    then show ?thesis
      by (subst digits.simps) (simp add: int_of_digits_def digit_value)
  next
    case False
    with 1 have "int_of_digits (digits (n div 10)) = int (n div 10)" by simp
    with False show ?thesis
      by (subst digits.simps) (simp add: int_of_digits_snoc digit_value zdiv_int zmod_int)
  qed
qed

lemma digits_hd: "0 < n \<Longrightarrow> hd (digits n) \<noteq> CHR ''0''"
proof (induction n rule: digits.induct)
  case (1 n)
  show ?case
  proof (cases "n < 10")
    case True
    with 1(2) have "digit_char n \<noteq> CHR ''0''"
      using digit_cases [of n] by (auto simp: digit_char_def)
    with True show ?thesis by (subst digits.simps) simp
  next
    case False
    then have "0 < n div 10" by simp
    with 1(1) False have "hd (digits (n div 10)) \<noteq> CHR ''0''" by simp
    with False show ?thesis
      by (subst digits.simps) (simp add: digits_nonempty)
  qed
qed

lemma digits_zero: "digits 0 = ''0''"
  by (subst digits.simps) (simp add: digit_char_def)

lemma digits_leading: "\<not> (hd (digits n) = CHR ''0'' \<and> 1 < length (digits n))"
proof (cases "n = 0")
  case True
  then show ?thesis by (simp add: digits_zero)
next
  case False
  then show ?thesis using digits_hd [of n] by simp
qed

subsection \<open>The lexer on the text of a value\<close>

lemma lex_string_escape:
  assumes "(32 \<le> (of_char c :: nat) \<and> (of_char c :: nat) < 128)
        \<or> c \<in> set [CHR 0x08, CHR 0x09, CHR 0x0A, CHR 0x0C, CHR 0x0D]"
  shows "lex_string (escape c @ r) = map_js (\<lambda>(s, r). (c # s, r)) (lex_string r)"
proof (cases "c \<in> set [CHR 0x08, CHR 0x09, CHR 0x0A, CHR 0x0C, CHR 0x0D]")
  case True
  then show ?thesis
    by (auto simp: escape_def unescape_def dquote_def backslash_def)
next
  case False
  with assms have r: "32 \<le> (of_char c :: nat)" "(of_char c :: nat) < 128" by auto
  show ?thesis
  proof (cases "c = dquote \<or> c = backslash")
    case True
    then show ?thesis
      by (auto simp: escape_def unescape_def dquote_def backslash_def)
  next
    case False
    with r show ?thesis
      by (auto simp: escape_def)
  qed
qed

lemma lex_string_quote:
  "str_ok s \<Longrightarrow> lex_string (concat (map escape s) @ dquote # r) = Ok (s, r)"
proof (induction s)
  case Nil
  then show ?case by simp
next
  case (Cons c s)
  then have "str_ok s" and c: "(32 \<le> (of_char c :: nat) \<and> (of_char c :: nat) < 128)
        \<or> c \<in> set [CHR 0x08, CHR 0x09, CHR 0x0A, CHR 0x0C, CHR 0x0D]"
    by (simp_all add: str_ok_def)
  with Cons.IH have "lex_string (concat (map escape s) @ dquote # r) = Ok (s, r)" by simp
  with lex_string_escape [OF c, of "concat (map escape s) @ dquote # r"]
  show ?case by (simp add: map_js_def)
qed

lemma lex_dquote:
  "lex (dquote # cs) =
     (case lex_string cs of
        Ok (s, rest) \<Rightarrow> map_js ((#) (TStr s)) (lex rest)
      | Thrown \<Rightarrow> Thrown
      | Beyond \<Rightarrow> Beyond)"
  by (simp add: is_space_def dquote_def)

lemma lex_quote: "str_ok s \<Longrightarrow> lex (quote s @ r) = map_js ((#) (TStr s)) (lex r)"
  by (simp add: quote_def lex_dquote lex_string_quote del: lex.simps)

lemma lex_null: "lex (''null'' @ r) = map_js ((#) TNull) (lex r)"
  by (simp add: is_space_def dquote_def starts_def)

lemma lex_true: "lex (''true'' @ r) = map_js ((#) TTrue) (lex r)"
  by (simp add: is_space_def dquote_def starts_def)

lemma lex_false: "lex (''false'' @ r) = map_js ((#) TFalse) (lex r)"
  by (simp add: is_space_def dquote_def starts_def)

lemma sep_not_digit: "sep r \<Longrightarrow> r = [] \<or> \<not> is_digit (hd r)"
  by (auto simp: sep_def is_digit_def)

lemma takeWhile_digits: "sep r \<Longrightarrow> list_all is_digit ds \<Longrightarrow> takeWhile is_digit (ds @ r) = ds"
  using sep_not_digit [of r]
  by (cases r) (auto simp: takeWhile_append list_all_iff)

lemma dropWhile_digits: "sep r \<Longrightarrow> list_all is_digit ds \<Longrightarrow> dropWhile is_digit (ds @ r) = r"
  using sep_not_digit [of r]
  by (cases r) (auto simp: dropWhile_append list_all_iff)

lemma lex_number_digits:
  "sep r \<Longrightarrow> int n \<le> 2 ^ 53 \<Longrightarrow>
   lex_number neg (digits n) r = Ok (TNum (if neg then - int n else int n))"
  using digits_leading [of n]
  by (auto simp: lex_number_def digits_nonempty int_of_digits_digits sep_def)

lemma pre_simps [simp]:
  "pre ts (pre us r) = pre (ts @ us) r"
  "pre [] r = r"
  "map_js ((#) t) (pre us r) = pre (t # us) r"
  by (cases r; simp add: pre_def map_js_def)+

lemma map_js_pre: "map_js ((#) t) r = pre [t] r"
  by (simp add: pre_def)

lemma digit_not_special:
  assumes "is_digit c"
  shows "\<not> is_space c" "c \<noteq> CHR ''[''" "c \<noteq> CHR '']''" "c \<noteq> CHR ''{''" "c \<noteq> CHR ''}''"
    "c \<noteq> CHR '',''" "c \<noteq> CHR '':''" "c \<noteq> dquote" "c \<noteq> CHR ''-''"
    "\<not> starts ''null'' (c # cs)" "\<not> starts ''true'' (c # cs)" "\<not> starts ''false'' (c # cs)"
  using assms by (auto simp: is_digit_def is_space_def dquote_def starts_def)

lemma lex_digits:
  assumes "sep r" "int n \<le> 2 ^ 53"
  shows "lex (digits n @ r) = map_js ((#) (TNum (int n))) (lex r)"
proof -
  obtain c cs where d: "digits n = c # cs"
    using digits_nonempty [of n] by (cases "digits n") auto
  with digits_all [of n] have c: "is_digit c" and cs: "list_all is_digit cs" by simp_all
  have t: "takeWhile is_digit (cs @ r) = cs" and dr: "dropWhile is_digit (cs @ r) = r"
    using takeWhile_digits [OF assms(1) cs] dropWhile_digits [OF assms(1) cs] by simp_all
  have "lex_number False (c # cs) r = Ok (TNum (int n))"
    using lex_number_digits [OF assms, of False] d by simp
  with c t dr show ?thesis
    by (simp add: d digit_not_special)
qed

lemma lex_minus_digits:
  assumes "sep r" "int n \<le> 2 ^ 53"
  shows "lex (CHR ''-'' # digits n @ r) = map_js ((#) (TNum (- int n))) (lex r)"
proof -
  have t: "takeWhile is_digit (digits n @ r) = digits n"
    and dr: "dropWhile is_digit (digits n @ r) = r"
    using takeWhile_digits [OF assms(1) digits_all] dropWhile_digits [OF assms(1) digits_all]
    by simp_all
  have "lex_number True (digits n) r = Ok (TNum (- int n))"
    using lex_number_digits [OF assms, of True] by simp
  with t dr show ?thesis
    by (simp add: is_space_def dquote_def starts_def)
qed

lemma lex_punct:
  "lex (CHR ''['' # cs) = map_js ((#) LBrack) (lex cs)"
  "lex (CHR '']'' # cs) = map_js ((#) RBrack) (lex cs)"
  "lex (CHR ''{'' # cs) = map_js ((#) LBrace) (lex cs)"
  "lex (CHR ''}'' # cs) = map_js ((#) RBrace) (lex cs)"
  "lex (CHR '','' # cs) = map_js ((#) Comma) (lex cs)"
  "lex (CHR '':'' # cs) = map_js ((#) Colon) (lex cs)"
  by (simp_all add: is_space_def)

lemma join_Cons: "join s (x # xs) = x @ concat (map (\<lambda>y. s @ y) xs)"
  by (induction s xs arbitrary: x rule: join.induct) simp_all

lemma join_map: "join [c] (map f (x # xs)) = f x @ concat (map (\<lambda>y. c # f y) xs)"
  by (simp add: join_Cons comp_def)

lemma sep_simps [simp]: "sep []" "sep (CHR '','' # r)" "sep (CHR '']'' # r)" "sep (CHR ''}'' # r)"
  by (simp_all add: sep_def)

lemma sep_concat: "sep r \<Longrightarrow> sep (concat (map (\<lambda>x. CHR '','' # f x) xs) @ r)"
  by (cases xs) simp_all

lemma lex_concat:
  assumes "\<And>x r. x \<in> set xs \<Longrightarrow> sep r \<Longrightarrow> lex (f x @ r) = pre (g x) (lex r)"
    and "sep r"
  shows "lex (concat (map (\<lambda>x. CHR '','' # f x) xs) @ r)
       = pre (concat (map (\<lambda>x. Comma # g x) xs)) (lex r)"
  using assms
proof (induction xs)
  case Nil
  show ?case by simp
next
  case (Cons x xs)
  let ?R = "concat (map (\<lambda>x. CHR '','' # f x) xs) @ r"
  have "sep ?R" using Cons.prems(2) by (rule sep_concat)
  then have "lex (f x @ ?R) = pre (g x) (lex ?R)"
    using Cons.prems(1) by simp
  moreover have "lex ?R = pre (concat (map (\<lambda>x. Comma # g x) xs)) (lex r)"
    using Cons.IH Cons.prems by simp
  ultimately show ?case
    by (simp add: lex_punct del: lex.simps)
qed

lemma lex_join:
  assumes "\<And>x r. x \<in> set xs \<Longrightarrow> sep r \<Longrightarrow> lex (f x @ r) = pre (g x) (lex r)"
    and "sep r"
  shows "lex (join '','' (map f xs) @ r)
       = pre (tl (concat (map (\<lambda>x. Comma # g x) xs))) (lex r)"
proof (cases xs)
  case Nil
  show ?thesis by (simp add: Nil)
next
  case (Cons x ys)
  let ?R = "concat (map (\<lambda>x. CHR '','' # f x) ys) @ r"
  have "sep ?R" using assms(2) by (rule sep_concat)
  then have "lex (f x @ ?R) = pre (g x) (lex ?R)"
    using assms(1) Cons by simp
  moreover have "lex ?R = pre (concat (map (\<lambda>x. Comma # g x) ys)) (lex r)"
    using assms Cons by (intro lex_concat) simp_all
  ultimately show ?thesis
    unfolding Cons join_map by (simp del: lex.simps)
qed

lemma json_ok_defined: "json_ok v \<Longrightarrow> v \<noteq> JUndefined"
  by auto

lemma filter_defined:
  "list_all (\<lambda>kv. P kv \<and> json_ok (snd kv)) kvs \<Longrightarrow> filter (\<lambda>kv. snd kv \<noteq> JUndefined) kvs = kvs"
  by (induction kvs) (auto dest: json_ok_defined)

lemma lex_stringify:
  "json_ok v \<Longrightarrow> sep r \<Longrightarrow> lex (JSON_stringify v @ r) = pre (toks v) (lex r)"
proof (induction v arbitrary: r)
  case JUndefined
  then show ?case by simp
next
  case JNull
  show ?case using lex_null [of r] by (simp add: map_js_pre del: lex.simps)
next
  case (JBool b)
  show ?case using lex_true [of r] lex_false [of r] by (simp add: map_js_pre del: lex.simps)
next
  case (JNum n)
  then have b: "\<bar>n\<bar> \<le> 2 ^ 53" by simp
  show ?case
  proof (cases "n < 0")
    case True
    with b have "int (nat (- n)) \<le> 2 ^ 53" by simp
    from lex_minus_digits [OF JNum.prems(2) this] True show ?thesis
      by (simp add: map_js_pre del: lex.simps)
  next
    case False
    with b have "int (nat n) \<le> 2 ^ 53" by simp
    from lex_digits [OF JNum.prems(2) this] False show ?thesis
      by (simp add: map_js_pre del: lex.simps)
  qed
next
  case (JStr s)
  then show ?case by (simp add: lex_quote map_js_pre del: lex.simps)
next
  case (JArr xs)
  have el: "\<And>x r. x \<in> set xs \<Longrightarrow> sep r \<Longrightarrow> lex (JSON_stringify x @ r) = pre (toks x) (lex r)"
    using JArr.IH JArr.prems(1) by (simp add: list_all_iff)
  have "lex (join '','' (map JSON_stringify xs) @ CHR '']'' # r)
      = pre (tl (concat (map (\<lambda>x. Comma # toks x) xs))) (lex (CHR '']'' # r))"
    by (rule lex_join [OF el]) simp_all
  then show ?case
    by (simp add: lex_punct map_js_pre del: lex.simps)
next
  case (JObj kvs)
  let ?f = "\<lambda>kv. quote (fst kv) @ '':'' @ JSON_stringify (snd kv)"
  let ?g = "\<lambda>kv. TStr (fst kv) # Colon # toks (snd kv)"
  have fl: "filter (\<lambda>kv. snd kv \<noteq> JUndefined) kvs = kvs"
    using JObj.prems(1) by (auto intro: filter_defined [where P = "\<lambda>kv. str_ok (fst kv) \<and> \<not> index_like (fst kv)"] simp: list_all_iff)
  have el: "lex (?f kv @ r) = pre (?g kv) (lex r)" if "kv \<in> set kvs" "sep r" for kv r
  proof -
    from that JObj.prems(1) have k: "str_ok (fst kv)" and v: "json_ok (snd kv)"
      by (auto simp: list_all_iff)
    have "snd kv \<in> Basic_BNFs.snds kv" by (cases kv) simp
    with JObj.IH that v have "lex (JSON_stringify (snd kv) @ r) = pre (toks (snd kv)) (lex r)"
      by blast
    then show ?thesis
      using lex_quote [OF k, of "'':'' @ JSON_stringify (snd kv) @ r"]
      by (simp add: lex_punct map_js_pre del: lex.simps)
  qed
  have "lex (join '','' (map ?f kvs) @ CHR ''}'' # r)
      = pre (tl (concat (map (\<lambda>kv. Comma # ?g kv) kvs))) (lex (CHR ''}'' # r))"
  proof (rule lex_join [where g = ?g])
    fix x r assume "x \<in> set kvs" "sep r"
    then show "lex (?f x @ r) = pre (?g x) (lex r)" by (rule el)
  qed simp
  then show ?case
    by (simp add: fl lex_punct map_js_pre del: lex.simps)
qed

lemma lex_JSON_stringify: "json_ok v \<Longrightarrow> lex (JSON_stringify v) = Ok (toks v)"
  using lex_stringify [of v "[]"] by (simp add: pre_def map_js_def)

subsection \<open>The parser on the tokens of a value\<close>

lemma toks_hd: "\<exists>t ts. toks v = t # ts \<and> t \<noteq> RBrack \<and> t \<noteq> RBrace \<and> t \<noteq> Comma \<and> t \<noteq> Colon"
  by (cases v) simp_all

lemma update_fresh: "k \<notin> fst ` set al \<Longrightarrow> AList.update k v al = al @ [(k, v)]"
  by (induction al) auto

lemma parse_elems_toks:
  assumes "\<And>x n r. x \<in> set xs \<Longrightarrow> length (toks x) < n \<Longrightarrow> parse_value n (toks x @ r) = Ok (x, r)"
  shows "length (concat (map (\<lambda>x. Comma # toks x) xs)) < n \<Longrightarrow>
         parse_elems n acc (concat (map (\<lambda>x. Comma # toks x) xs) @ RBrack # r)
           = Ok (JArr (acc @ xs), r)"
  using assms
proof (induction xs arbitrary: n acc)
  case Nil
  then obtain m where "n = Suc m" by (cases n) auto
  then show ?case by simp
next
  case (Cons x xs)
  from Cons.prems(1) obtain m where n: "n = Suc m" by (cases n) auto
  let ?R = "concat (map (\<lambda>x. Comma # toks x) xs) @ RBrack # r"
  from Cons.prems(1) n have m: "length (toks x) < m" "length (concat (map (\<lambda>x. Comma # toks x) xs)) < m"
    by simp_all
  have "parse_value m (toks x @ ?R) = Ok (x, ?R)"
    using Cons.prems(2) m(1) by simp
  moreover have "parse_elems m (acc @ [x]) ?R = Ok (JArr ((acc @ [x]) @ xs), r)"
    using Cons.IH [OF m(2)] Cons.prems(2) by simp
  ultimately show ?case
    by (simp add: n bind_js_def)
qed

lemma parse_members_toks:
  assumes "\<And>kv n r. kv \<in> set kvs \<Longrightarrow> length (toks (snd kv)) < n
             \<Longrightarrow> parse_value n (toks (snd kv) @ r) = Ok (snd kv, r)"
  shows "length (concat (map (\<lambda>kv. Comma # TStr (fst kv) # Colon # toks (snd kv)) kvs)) < n \<Longrightarrow>
         distinct (map fst (acc @ kvs)) \<Longrightarrow> \<forall>kv \<in> set kvs. \<not> index_like (fst kv) \<Longrightarrow>
         parse_members n acc
           (concat (map (\<lambda>kv. Comma # TStr (fst kv) # Colon # toks (snd kv)) kvs) @ RBrace # r)
           = Ok (JObj (acc @ kvs), r)"
  using assms
proof (induction kvs arbitrary: n acc)
  case Nil
  then obtain m where "n = Suc m" by (cases n) auto
  then show ?case by simp
next
  case (Cons kv kvs)
  from Cons.prems(1) obtain m where n: "n = Suc m" by (cases n) auto
  let ?g = "\<lambda>kv. Comma # TStr (fst kv) # Colon # toks (snd kv)"
  let ?R = "concat (map ?g kvs) @ RBrace # r"
  from Cons.prems(1) n have m: "length (toks (snd kv)) < m" "length (concat (map ?g kvs)) < m"
    by simp_all
  have v: "parse_value m (toks (snd kv) @ ?R) = Ok (snd kv, ?R)"
    using Cons.prems(4) m(1) by simp
  from Cons.prems(2) have fresh: "fst kv \<notin> fst ` set acc" by auto
  then have u: "AList.update (fst kv) (snd kv) acc = acc @ [kv]"
    by (simp add: update_fresh)
  from Cons.prems(2) have d: "distinct (map fst ((acc @ [kv]) @ kvs))" by simp
  have "parse_members m (acc @ [kv]) ?R = Ok (JObj ((acc @ [kv]) @ kvs), r)"
    using Cons.IH [OF m(2) d] Cons.prems(3,4) by simp
  with v u Cons.prems(3) show ?case
    by (simp add: n bind_js_def)
qed

lemma parse_value_toks:
  "json_ok v \<Longrightarrow> length (toks v) < n \<Longrightarrow> parse_value n (toks v @ r) = Ok (v, r)"
proof (induction v arbitrary: n r)
  case JUndefined
  then show ?case by simp
next
  case (JArr xs)
  from JArr.prems(2) obtain m where n: "n = Suc m" by (cases n) auto
  have el: "\<And>x n r. x \<in> set xs \<Longrightarrow> length (toks x) < n \<Longrightarrow> parse_value n (toks x @ r) = Ok (x, r)"
    using JArr.IH JArr.prems(1) by (simp add: list_all_iff)
  show ?case
  proof (cases xs)
    case Nil
    then show ?thesis by (simp add: n)
  next
    case (Cons x ys)
    let ?R = "concat (map (\<lambda>x. Comma # toks x) ys) @ RBrack # r"
    obtain t ts where t: "toks x = t # ts" "t \<noteq> RBrack" using toks_hd [of x] by blast
    from JArr.prems(2) n Cons have m: "length (toks x) < m" "length (concat (map (\<lambda>x. Comma # toks x) ys)) < m"
      by simp_all
    have "parse_value m (toks x @ ?R) = Ok (x, ?R)"
      using el [OF _ m(1)] Cons by simp
    moreover have "parse_elems m [x] ?R = Ok (JArr ([x] @ ys), r)"
      using el Cons by (intro parse_elems_toks [OF _ m(2)]) simp_all
    ultimately show ?thesis
      using t by (simp add: n Cons bind_js_def)
  qed
next
  case (JObj kvs)
  from JObj.prems(2) obtain m where n: "n = Suc m" by (cases n) auto
  let ?g = "\<lambda>kv. Comma # TStr (fst kv) # Colon # toks (snd kv)"
  have el: "parse_value n (toks (snd kv) @ r) = Ok (snd kv, r)"
    if "kv \<in> set kvs" "length (toks (snd kv)) < n" for kv n r
  proof -
    have "snd kv \<in> Basic_BNFs.snds kv" by (cases kv) simp
    moreover from that JObj.prems(1) have "json_ok (snd kv)" by (auto simp: list_all_iff)
    ultimately show ?thesis using JObj.IH that by blast
  qed
  show ?case
  proof (cases kvs)
    case Nil
    then show ?thesis by (simp add: n)
  next
    case (Cons kv ys)
    from JObj.prems(2) n have m: "length (concat (map ?g kvs)) < m"
      by (simp add: Cons)
    have d: "distinct (map fst ([] @ kvs))" and ni: "\<forall>kv \<in> set kvs. \<not> index_like (fst kv)"
      using JObj.prems(1) by (auto simp: list_all_iff)
    have "parse_members m [] (concat (map ?g kvs) @ RBrace # r) = Ok (JObj ([] @ kvs), r)"
      using m d ni
    proof (rule parse_members_toks [rotated])
      fix kv n r assume "kv \<in> set kvs" "length (toks (snd kv)) < n"
      then show "parse_value n (toks (snd kv) @ r) = Ok (snd kv, r)" by (rule el)
    qed
    then show ?thesis
      by (simp add: n Cons)
  qed
next
  case JNull
  then show ?case by (cases n) simp_all
next
  case (JBool b)
  then show ?case by (cases n) simp_all
next
  case (JNum i)
  then show ?case by (cases n) simp_all
next
  case (JStr s)
  then show ?case by (cases n) simp_all
qed

lemma json_roundtrip: "json_ok v \<Longrightarrow> JSON_parse (JSON_stringify v) = Ok v"
  using parse_value_toks [of v "Suc (Suc (length (toks v)))" "[]"]
  by (simp add: JSON_parse_def lex_JSON_stringify bind_js_def del: parse_value.simps)

subsection \<open>What the parser returns is a JSON value\<close>

lemma unescape_range:
  "unescape e = Some ch \<Longrightarrow>
   ch \<in> set [CHR 0x22, CHR 0x5C, CHR ''/'', CHR 0x08, CHR 0x09, CHR 0x0A, CHR 0x0C, CHR 0x0D]"
  unfolding unescape_def dquote_def backslash_def
  by (simp split: if_splits)

lemma chr_ok_range:
  "ch \<in> set [CHR 0x22, CHR 0x5C, CHR ''/'', CHR 0x08, CHR 0x09, CHR 0x0A, CHR 0x0C, CHR 0x0D]
   \<Longrightarrow> chr_ok ch"
  unfolding chr_ok_def by (elim set_ConsD [THEN disjE]) simp_all

lemma unescape_ok: "unescape e = Some ch \<Longrightarrow> chr_ok ch"
  by (rule chr_ok_range) (rule unescape_range)

lemma map_js_Ok: "map_js f r = Ok y \<Longrightarrow> \<exists>x. r = Ok x \<and> y = f x"
  by (cases r) (simp_all add: map_js_def)

lemma lex_string_step:
  assumes "lex_string (c # cs) = Ok (s, r)" "c \<noteq> dquote"
  shows "(c = backslash \<and> (\<exists>e cs' ch s'. cs = e # cs' \<and> e \<noteq> CHR ''u'' \<and> unescape e = Some ch
            \<and> lex_string cs' = Ok (s', r) \<and> s = ch # s'))
       \<or> (c \<noteq> backslash \<and> \<not> (of_char c :: nat) < 32 \<and> \<not> 128 \<le> (of_char c :: nat)
            \<and> (\<exists>s'. lex_string cs = Ok (s', r) \<and> s = c # s'))"
proof (cases "c = backslash")
  case True
  with assms obtain e cs' where cs: "cs = e # cs'" by (cases cs) auto
  with True assms have nu: "e \<noteq> CHR ''u''" by (auto split: if_splits)
  with True assms cs obtain ch where ch: "unescape e = Some ch" by (cases "unescape e") auto
  with True assms cs nu have "map_js (\<lambda>(s, r). (ch # s, r)) (lex_string cs') = Ok (s, r)" by simp
  from map_js_Ok [OF this] obtain s' where "lex_string cs' = Ok (s', r)" "s = ch # s'" by auto
  with True cs nu ch show ?thesis by blast
next
  case False
  with assms have r: "\<not> (of_char c :: nat) < 32" "\<not> 128 \<le> (of_char c :: nat)"
    by (auto split: if_splits)
  with False assms have "map_js (\<lambda>(s, r). (c # s, r)) (lex_string cs) = Ok (s, r)" by simp
  from map_js_Ok [OF this] obtain s' where "lex_string cs = Ok (s', r)" "s = c # s'" by auto
  with False r show ?thesis by blast
qed


lemma str_ok_Cons: "str_ok (c # s) = (chr_ok c \<and> str_ok s)"
  by (simp add: str_ok_def chr_ok_def)

lemma lex_string_ok: "lex_string cs = Ok (s, r) \<Longrightarrow> str_ok s"
proof (induction cs arbitrary: s rule: length_induct)
  case (1 cs)
  show ?case
  proof (cases cs)
    case Nil
    with 1(2) show ?thesis by simp
  next
    case (Cons c ds)
    show ?thesis
    proof (cases "c = dquote")
      case True
      with 1(2) Cons show ?thesis by (simp add: str_ok_def)
    next
      case False
      from 1(2) Cons have "lex_string (c # ds) = Ok (s, r)" by simp
      from lex_string_step [OF this False] show ?thesis
      proof (elim disjE conjE exE)
        fix e cs' ch s'
        assume a: "ds = e # cs'" "unescape e = Some ch" "lex_string cs' = Ok (s', r)" "s = ch # s'"
        from a(1) Cons have "length cs' < length cs" by simp
        with 1(1) a(3) have "str_ok s'" by blast
        with unescape_ok [OF a(2)] a(4) show ?thesis by (simp add: str_ok_Cons)
      next
        fix s'
        assume a: "\<not> (of_char c :: nat) < 32" "\<not> 128 \<le> (of_char c :: nat)"
          "lex_string ds = Ok (s', r)" "s = c # s'"
        from Cons have "length ds < length cs" by simp
        with 1(1) a(3) have "str_ok s'" by blast
        with a show ?thesis
          by (simp add: str_ok_Cons) (simp add: chr_ok_def)
      qed
    qed
  qed
qed

lemma int_of_digits_nonneg_aux:
  "list_all is_digit ds \<Longrightarrow> 0 \<le> a
   \<Longrightarrow> 0 \<le> foldl (\<lambda>a c. 10 * a + ((of_char c :: int) - 48)) a ds"
proof (induction ds arbitrary: a)
  case Nil
  then show ?case by simp
next
  case (Cons c ds)
  from Cons.prems(1) have "48 \<le> (of_char c :: nat)" by (simp add: is_digit_def)
  then have "48 \<le> int (of_char c)" by linarith
  then have "(48::int) \<le> of_char c" by (simp add: of_nat_of_char)
  with Cons.prems(2) have "0 \<le> 10 * a + ((of_char c :: int) - 48)" by simp
  with Cons show ?case by simp
qed

lemma lex_number_ok: "list_all is_digit ds \<Longrightarrow> lex_number neg ds rest = Ok t \<Longrightarrow> tok_ok t"
  using int_of_digits_nonneg_aux [of ds 0]
  by (auto simp: lex_number_def tok_ok_def int_of_digits_def split: if_splits)

lemma list_all_takeWhile: "list_all P (takeWhile P xs)"
  by (induction xs) simp_all


lemma tok_ok_simps [simp]:
  "tok_ok LBrack" "tok_ok RBrack" "tok_ok LBrace" "tok_ok RBrace" "tok_ok Comma" "tok_ok Colon"
  "tok_ok TNull" "tok_ok TTrue" "tok_ok TFalse" "tok_ok (TStr s) = str_ok s"
  "tok_ok (TNum i) = (\<bar>i\<bar> \<le> 2 ^ 53)"
  by (simp_all add: tok_ok_def)

lemma lex_step:
  assumes "lex (c # cs) = Ok ts"
  shows "\<exists>rest. length rest \<le> length cs
           \<and> (lex rest = Ok ts \<or> (\<exists>t ts'. tok_ok t \<and> lex rest = Ok ts' \<and> ts = t # ts'))"
proof -
  have P: "\<exists>rest. length rest \<le> length cs
           \<and> (lex rest = Ok ts \<or> (\<exists>t ts'. tok_ok t \<and> lex rest = Ok ts' \<and> ts = t # ts'))"
    if "map_js ((#) t) (lex rest) = Ok ts" "tok_ok t" "length rest \<le> length cs" for t rest
    using map_js_Ok [OF that(1)] that(2,3) by blast
  consider (sp) "is_space c"
    | (punct) "\<not> is_space c" "c \<in> set ''[]{},:''"
    | (str) "\<not> is_space c" "c \<notin> set ''[]{},:''" "c = dquote"
    | (lit) "\<not> is_space c" "c \<notin> set ''[]{},:''" "c \<noteq> dquote"
        "starts ''null'' (c # cs) \<or> starts ''true'' (c # cs) \<or> starts ''false'' (c # cs)"
    | (neg) "\<not> is_space c" "c \<notin> set ''[]{},:''" "c \<noteq> dquote"
        "\<not> (starts ''null'' (c # cs) \<or> starts ''true'' (c # cs) \<or> starts ''false'' (c # cs))"
        "c = CHR ''-''"
    | (num) "\<not> is_space c" "c \<notin> set ''[]{},:''" "c \<noteq> dquote"
        "\<not> (starts ''null'' (c # cs) \<or> starts ''true'' (c # cs) \<or> starts ''false'' (c # cs))"
        "c \<noteq> CHR ''-''" "is_digit c"
    | (other) "\<not> is_space c" "c \<notin> set ''[]{},:''" "c \<noteq> dquote"
        "\<not> (starts ''null'' (c # cs) \<or> starts ''true'' (c # cs) \<or> starts ''false'' (c # cs))"
        "c \<noteq> CHR ''-''" "\<not> is_digit c"
    by blast
  then show ?thesis
  proof cases
    case sp
    with assms have "lex cs = Ok ts" by simp
    then show ?thesis by auto
  next
    case punct
    with assms obtain t where "map_js ((#) t) (lex cs) = Ok ts" "tok_ok t"
      by (auto split: if_splits)
    from P [OF this order_refl] show ?thesis .
  next
    case str
    with assms obtain s rest where l: "lex_string cs = Ok (s, rest)"
      and m: "map_js ((#) (TStr s)) (lex rest) = Ok ts"
      by (auto split: js.splits)
    from lex_string_length [OF l] have "length rest \<le> length cs" by simp
    from P [OF m _ this] lex_string_ok [OF l] show ?thesis by simp
  next
    case lit
    with assms obtain t k where "map_js ((#) t) (lex (drop k cs)) = Ok ts" "tok_ok t"
      by (auto split: if_splits)
    from P [OF this] show ?thesis by simp
  next
    case neg
    with assms obtain t where l: "lex_number True (takeWhile is_digit cs) (dropWhile is_digit cs) = Ok t"
      and m: "map_js ((#) t) (lex (dropWhile is_digit cs)) = Ok ts"
      by (auto split: js.splits)
    from P [OF m lex_number_ok [OF list_all_takeWhile l]] show ?thesis
      by (simp add: length_dropWhile_le)
  next
    case num
    with assms obtain t where l: "lex_number False (c # takeWhile is_digit cs) (dropWhile is_digit cs) = Ok t"
      and m: "map_js ((#) t) (lex (dropWhile is_digit cs)) = Ok ts"
      by (auto split: js.splits)
    have "list_all is_digit (c # takeWhile is_digit cs)"
      using num(6) by (simp add: list_all_takeWhile)
    from P [OF m lex_number_ok [OF this l]] show ?thesis
      by (simp add: length_dropWhile_le)
  next
    case other
    with assms show ?thesis by (simp split: if_splits)
  qed
qed

lemma lex_ok: "lex s = Ok ts \<Longrightarrow> list_all tok_ok ts"
proof (induction s arbitrary: ts rule: length_induct)
  case (1 s)
  show ?case
  proof (cases s)
    case Nil
    with 1(2) show ?thesis by simp
  next
    case (Cons c cs)
    with 1(2) have "lex (c # cs) = Ok ts" by simp
    from lex_step [OF this] obtain rest where r: "length rest \<le> length cs"
      and d: "lex rest = Ok ts \<or> (\<exists>t ts'. tok_ok t \<and> lex rest = Ok ts' \<and> ts = t # ts')"
      by blast
    from r Cons have "length rest < length s" by simp
    with 1(1) have "\<And>us. lex rest = Ok us \<Longrightarrow> list_all tok_ok us" by blast
    with d show ?thesis by auto
  qed
qed


lemma bind_js_Ok: "bind_js r f = Ok y \<Longrightarrow> \<exists>x. r = Ok x \<and> f x = Ok y"
  by (cases r) (simp_all add: bind_js_def)

lemma set_update_subset: "set (AList.update k v al) \<subseteq> insert (k, v) (set al)"
  by (induction al) auto

lemma json_ok_update:
  assumes "json_ok (JObj acc)" "str_ok k" "\<not> index_like k" "json_ok v"
  shows "json_ok (JObj (AList.update k v acc))"
  using assms set_update_subset [of k v acc]
  by (auto simp: list_all_iff distinct_update)

lemma parse_ok_all: "parse_ok n"
proof (induction n)
  case 0
  show ?case by (simp add: parse_ok_def)
next
  case (Suc n)
  then have V: "\<And>ts v r. list_all tok_ok ts \<Longrightarrow> parse_value n ts = Ok (v, r)
      \<Longrightarrow> json_ok v \<and> list_all tok_ok r"
    and E: "\<And>acc ts v r. list_all tok_ok ts \<Longrightarrow> list_all json_ok acc
      \<Longrightarrow> parse_elems n acc ts = Ok (v, r) \<Longrightarrow> json_ok v \<and> list_all tok_ok r"
    and M: "\<And>acc ts v r. list_all tok_ok ts \<Longrightarrow> json_ok (JObj acc)
      \<Longrightarrow> parse_members n acc ts = Ok (v, r) \<Longrightarrow> json_ok v \<and> list_all tok_ok r"
    unfolding parse_ok_def by blast+
  have v: "json_ok v \<and> list_all tok_ok r"
    if ok: "list_all tok_ok ts" and p: "parse_value (Suc n) ts = Ok (v, r)" for ts v r
  proof (cases ts)
    case Nil
    with p show ?thesis by simp
  next
    case (Cons t u)
    show ?thesis
    proof (cases t)
      case LBrack
      show ?thesis
      proof (cases "u \<noteq> [] \<and> hd u = RBrack")
        case True
        with p ok Cons LBrack show ?thesis by (cases u) auto
      next
        case False
        with p Cons LBrack have "bind_js (parse_value n u) (\<lambda>(v, r'). parse_elems n [v] r') = Ok (v, r)"
          by auto
        from bind_js_Ok [OF this] obtain x r' where x: "parse_value n u = Ok (x, r')"
          and e: "parse_elems n [x] r' = Ok (v, r)" by auto
        from V [OF _ x] ok Cons have "json_ok x" "list_all tok_ok r'" by simp_all
        with E [OF _ _ e] show ?thesis by simp
      qed
    next
      case LBrace
      show ?thesis
      proof (cases "u \<noteq> [] \<and> hd u = RBrace")
        case True
        with p ok Cons LBrace show ?thesis by (cases u) auto
      next
        case False
        with p Cons LBrace have "parse_members n [] (Comma # u) = Ok (v, r)" by auto
        from M [OF _ _ this] ok Cons show ?thesis by simp
      qed
    qed (use p ok Cons in auto)
  qed
  have e: "json_ok v \<and> list_all tok_ok r"
    if ok: "list_all tok_ok ts" and acc: "list_all json_ok acc"
      and p: "parse_elems (Suc n) acc ts = Ok (v, r)" for acc ts v r
  proof (cases ts)
    case Nil
    with p show ?thesis by simp
  next
    case (Cons t u)
    show ?thesis
    proof (cases "t = RBrack")
      case True
      with p ok acc Cons show ?thesis by auto
    next
      case False
      with p Cons have c: "t = Comma"
        and "bind_js (parse_value n u) (\<lambda>(v, r'). parse_elems n (acc @ [v]) r') = Ok (v, r)"
        by (auto split: if_splits)
      from bind_js_Ok [OF this(2)] obtain x r' where x: "parse_value n u = Ok (x, r')"
        and e: "parse_elems n (acc @ [x]) r' = Ok (v, r)" by auto
      from V [OF _ x] ok Cons have "json_ok x" "list_all tok_ok r'" by simp_all
      with E [OF _ _ e] acc show ?thesis by simp
    qed
  qed
  have m: "json_ok v \<and> list_all tok_ok r"
    if ok: "list_all tok_ok ts" and acc: "json_ok (JObj acc)"
      and p: "parse_members (Suc n) acc ts = Ok (v, r)" for acc ts v r
  proof (cases ts)
    case Nil
    with p show ?thesis by simp
  next
    case (Cons t u)
    show ?thesis
    proof (cases "t = RBrace")
      case True
      with p ok acc Cons show ?thesis by auto
    next
      case False
      with p Cons obtain k u' where c: "t = Comma" and u: "u = TStr k # Colon # u'"
        and k: "\<not> index_like k"
        and "bind_js (parse_value n u') (\<lambda>(v, r''). parse_members n (AList.update k v acc) r'') = Ok (v, r)"
        by (auto split: if_splits list.splits token.splits)
      from bind_js_Ok [OF this(4)] obtain x r' where x: "parse_value n u' = Ok (x, r')"
        and e: "parse_members n (AList.update k x acc) r' = Ok (v, r)" by auto
      from ok Cons u have sk: "str_ok k" and ok': "list_all tok_ok u'" by simp_all
      from V [OF ok' x] have "json_ok x" "list_all tok_ok r'" by simp_all
      with M [OF _ json_ok_update [OF acc sk k] e] show ?thesis by simp
    qed
  qed
  show ?case
    unfolding parse_ok_def using v e m by blast
qed

lemma JSON_parse_ok: "JSON_parse s = Ok v \<Longrightarrow> json_ok v"
proof -
  assume a: "JSON_parse s = Ok v"
  from bind_js_Ok [OF a [unfolded JSON_parse_def]] obtain ts where l: "lex s = Ok ts"
    and "bind_js (parse_value (Suc (Suc (length ts))) ts) (\<lambda>(v, r). if r = [] then Ok v else Thrown) = Ok v"
    by auto
  from bind_js_Ok [OF this(2)] obtain x r where p: "parse_value (Suc (Suc (length ts))) ts = Ok (x, r)"
    and "(if r = [] then Ok x else Thrown) = Ok v" by auto
  then have "x = v" by (simp split: if_splits)
  with parse_ok_all [of "Suc (Suc (length ts))"] lex_ok [OF l] p show ?thesis
    unfolding parse_ok_def by blast
qed

section \<open>The handlers on a stored collection\<close>

lemma JSON_stringify_JArr_nonempty: "JSON_stringify (JArr ys) \<noteq> []"
  by simp

lemma KV_get_put: "KV_get (KV_put k v e) k' = (if k' = k then Some v else KV_get e k')"
  by (simp add: KV_get_def KV_put_def)

lemma puts_put: "puts (KV_put k v e) = puts e @ [(k, v)]"
  by (simp add: KV_put_def)

lemma read_after_put:
  "list_all json_ok ys \<Longrightarrow>
   read_websites (KV_put ''websites'' (JSON_stringify (JArr ys)) e) = Ok (JArr ys)"
  using json_roundtrip [of "JArr ys"]
  by (simp add: read_websites_def KV_get_put JSON_stringify_JArr_nonempty
      del: JSON_stringify.simps)

lemma read_websites_ok: "read_websites e = Ok (JArr xs) \<Longrightarrow> list_all json_ok xs"
  using JSON_parse_ok [of _ "JArr xs"]
  by (auto simp: read_websites_def split: option.splits if_splits)

lemma str_ok_websites: "str_ok ''websites''" "\<not> index_like ''websites''"
  by (simp_all add: str_ok_def index_like_def is_digit_def)

lemma websites_object_ok: "list_all json_ok ys \<Longrightarrow> json_ok (JObj [(''websites'', JArr ys)])"
  by (simp add: str_ok_websites)

lemma handleGetRequest_read:
  "read_websites e = Ok w \<Longrightarrow>
   handleGetRequest e cors = Ok (json_response (JObj [(''websites'', w)]) cors, e)"
  by (simp add: handleGetRequest_def bind_js_def try_catch_def)

lemma get_body_parses:
  "list_all json_ok ys \<Longrightarrow>
   JSON_parse (body (json_response (JObj [(''websites'', JArr ys)]) cors))
     = Ok (JObj [(''websites'', JArr ys)])"
  using json_roundtrip [OF websites_object_ok [of ys]]
  by (simp add: json_response_def del: JSON_stringify.simps)

lemma handleUpdateRequest_in_range:
  assumes "read_websites e = Ok (JArr xs)" "0 \<le> i" "i < int (length xs)"
  shows "handleUpdateRequest R (JNum i) e cors
       = Ok (json_response success cors,
             KV_put ''websites'' (JSON_stringify (JArr (xs[nat i := R]))) e)"
  using assms
  by (simp add: handleUpdateRequest_def bind_js_def try_catch_def ToNumber_def
      index_in_range_def assign_index_def del: JSON_stringify.simps)

lemma handleUpdateRequest_out_of_range:
  assumes "read_websites e = Ok (JArr xs)" "i < 0 \<or> int (length xs) \<le> i"
  shows "handleUpdateRequest R (JNum i) e cors
       = Ok (\<lparr>status = 400, body = ''Invalid index'', headers = cors\<rparr>, e)"
  using assms
  by (auto simp: handleUpdateRequest_def bind_js_def try_catch_def ToNumber_def
      index_in_range_def)

lemma handleAddRequest_array:
  assumes "read_websites e = Ok (JArr xs)"
  shows "handleAddRequest R e cors
       = Ok (json_response success cors,
             KV_put ''websites'' (JSON_stringify (JArr (xs @ [R]))) e)"
  using assms
  by (simp add: handleAddRequest_def bind_js_def try_catch_def del: JSON_stringify.simps)

lemma list_all_list_update: "list_all P xs \<Longrightarrow> P x \<Longrightarrow> list_all P (xs[n := x])"
  using set_update_subset_insert [of xs n x] by (auto simp: list_all_iff)

lemma JSON_parse_empty: "JSON_parse [] = Thrown"
  by (simp add: JSON_parse_def bind_js_def)

lemma stored_read:
  assumes "KV_get e ''websites'' = None \<and> xs = []
         \<or> (\<exists>t. KV_get e ''websites'' = Some t \<and> JSON_parse t = Ok (JArr xs))"
  shows "read_websites e = Ok (JArr xs)"
  using assms by (auto simp: read_websites_def JSON_parse_empty)

lemma get_prop_defined:
  "v \<noteq> JNull \<Longrightarrow> v \<noteq> JUndefined \<Longrightarrow> get_prop v k = Ok (prop_of v k)"
  by (cases v) (simp_all add: prop_of_def get_prop_def)

lemma filter_js_total:
  "(\<And>x. x \<in> set xs \<Longrightarrow> p x = Ok (q x)) \<Longrightarrow> filter_js p xs = Ok (filter q xs)"
  by (induction xs) (simp_all add: bind_js_def map_js_def)

lemma handleDeleteRequest_filter:
  assumes "read_websites e = Ok (JArr xs)" and "JNull \<notin> set xs"
  shows "handleDeleteRequest i e cors
       = Ok (json_response success cors,
             KV_put ''websites''
               (JSON_stringify (JArr (filter (\<lambda>w. \<not> strict_eq (prop_of w ''id'') i) xs))) e)"
proof -
  have "x \<noteq> JUndefined" if "x \<in> set xs" for x
    using read_websites_ok [OF assms(1)] that by (auto simp: list_all_iff)
  with assms(2) have "get_prop x ''id'' = Ok (prop_of x ''id'')" if "x \<in> set xs" for x
    using that by (intro get_prop_defined) auto
  then have "filter_js (\<lambda>website. map_js (\<lambda>v. \<not> strict_eq v i) (get_prop website ''id'')) xs
      = Ok (filter (\<lambda>w. \<not> strict_eq (prop_of w ''id'') i) xs)"
    by (intro filter_js_total) (simp add: map_js_def)
  with assms(1) show ?thesis
    by (simp add: handleDeleteRequest_def bind_js_def try_catch_def del: JSON_stringify.simps)
qed

lemma handleDeleteRequest_null:
  assumes "read_websites e = Ok (JArr xs)" and "JNull \<in> set xs"
  shows "handleDeleteRequest i e cors
       = Ok (\<lparr>status = 500, body = ''Error deleting website'', headers = cors\<rparr>, e)"
proof -
  have "filter_js (\<lambda>website. map_js (\<lambda>v. \<not> strict_eq v i) (get_prop website ''id'')) ys = Thrown"
    if "JNull \<in> set ys" "JUndefined \<notin> set ys" for ys
    using that
  proof (induction ys)
    case Nil
    then show ?case by simp
  next
    case (Cons y ys)
    show ?case
    proof (cases "y = JNull")
      case True
      then show ?thesis by (simp add: get_prop_def map_js_def bind_js_def)
    next
      case False
      with Cons have "filter_js (\<lambda>website. map_js (\<lambda>v. \<not> strict_eq v i) (get_prop website ''id'')) ys = Thrown"
        by simp
      moreover from False Cons.prems have "get_prop y ''id'' = Ok (prop_of y ''id'')"
        by (intro get_prop_defined) auto
      ultimately show ?thesis by (simp add: map_js_def bind_js_def)
    qed
  qed
  moreover have "JUndefined \<notin> set xs"
    using read_websites_ok [OF assms(1)] by (auto simp: list_all_iff)
  ultimately show ?thesis using assms
    by (simp add: handleDeleteRequest_def bind_js_def try_catch_def del: JSON_stringify.simps)
qed




lemma read_store_of: "list_all json_ok xs \<Longrightarrow> read_websites (store_of (JArr xs)) = Ok (JArr xs)"
  using json_roundtrip [of "JArr xs"]
  by (simp add: read_websites_def KV_get_def store_of_def JSON_stringify_JArr_nonempty
      del: JSON_stringify.simps)

lemma str_ok_names:
  "str_ok ''id''" "\<not> index_like ''id''" "str_ok ''action''" "\<not> index_like ''action''"
  "str_ok ''title''" "\<not> index_like ''title''" "str_ok ''delete''" "str_ok ''get''"
  "str_ok ''a''" "str_ok ''b''" "str_ok ''x''"
  by (simp_all add: str_ok_def index_like_def is_digit_def)

lemma stringify_nullify: "JSON_stringify (JArr (map nullify xs)) = JSON_stringify (JArr xs)"
proof -
  have "JSON_stringify (nullify x) = JSON_stringify x" for x
    by (simp add: nullify_def)
  then have "map JSON_stringify (map nullify xs) = map JSON_stringify xs"
    by (simp add: comp_def)
  then show ?thesis by (simp only: JSON_stringify.simps)
qed

lemma array_text_written:
  assumes "\<forall>x \<in> set xs. x = JUndefined \<or> json_ok x"
  shows "is_array_text (JSON_stringify (JArr xs))"
proof -
  from assms have "list_all json_ok (map nullify xs)"
    by (auto simp: list_all_iff nullify_def)
  then have "json_ok (JArr (map nullify xs))" by simp
  from json_roundtrip [OF this] show ?thesis
    by (simp add: is_array_text_def stringify_nullify del: JSON_stringify.simps)
qed

lemma collection_ok_read:
  assumes "collection_ok e"
  shows "\<exists>xs. read_websites e = Ok (JArr xs)"
proof (cases "KV_get e ''websites''")
  case None
  then show ?thesis by (simp add: read_websites_def)
next
  case (Some t)
  with assms have "is_array_text t" by (simp add: collection_ok_def)
  then obtain xs where "JSON_parse t = Ok (JArr xs)"
    by (auto simp: is_array_text_def split: js.splits json.splits)
  moreover from this have "t \<noteq> []" by (auto simp: JSON_parse_empty)
  ultimately show ?thesis using Some by (simp add: read_websites_def)
qed

lemma step_ok_collection:
  assumes "collection_ok e" and "step_ok e e'"
  shows "collection_ok e'
       \<and> (\<exists>ws. puts e' = puts e @ ws
             \<and> list_all (\<lambda>kv. fst kv = ''websites'' \<and> is_array_text (snd kv)) ws)"
  using assms(2) unfolding step_ok_def
proof (elim disjE exE conjE)
  assume "e' = e"
  with assms(1) show ?thesis by simp
next
  fix t assume "is_array_text t" "e' = KV_put ''websites'' t e"
  then show ?thesis
    by (simp add: collection_ok_def KV_get_put puts_put)
qed

lemma try_catch_Ok: "try_catch X h = Ok y \<Longrightarrow> X = Ok y \<or> (X = Thrown \<and> y = h)"
  by (cases X) (simp_all add: try_catch_def)

lemma handleGetRequest_step: "handleGetRequest e cors = Ok (r, e') \<Longrightarrow> step_ok e e'"
  by (auto simp: handleGetRequest_def step_ok_def dest!: try_catch_Ok bind_js_Ok)

lemma handleAddRequest_step:
  assumes "collection_ok e" and "R = JUndefined \<or> json_ok R"
    and "handleAddRequest R e cors = Ok (r, e')"
  shows "step_ok e e'"
proof -
  from collection_ok_read [OF assms(1)] obtain xs where x: "read_websites e = Ok (JArr xs)" ..
  have "\<forall>x \<in> set (xs @ [R]). x = JUndefined \<or> json_ok x"
    using read_websites_ok [OF x] assms(2) by (auto simp: list_all_iff)
  from array_text_written [OF this] assms(3) show ?thesis
    unfolding handleAddRequest_array [OF x] step_ok_def by auto
qed

lemma handleDeleteRequest_step:
  assumes "collection_ok e" and "handleDeleteRequest i e cors = Ok (r, e')"
  shows "step_ok e e'"
proof -
  from collection_ok_read [OF assms(1)] obtain xs where x: "read_websites e = Ok (JArr xs)" ..
  show ?thesis
  proof (cases "JNull \<in> set xs")
    case True
    from assms(2) show ?thesis
      unfolding handleDeleteRequest_null [OF x True] step_ok_def by simp
  next
    case False
    have "\<forall>x \<in> set (filter (\<lambda>w. \<not> strict_eq (prop_of w ''id'') i) xs). x = JUndefined \<or> json_ok x"
      using read_websites_ok [OF x] by (auto simp: list_all_iff)
    from array_text_written [OF this] assms(2) show ?thesis
      unfolding handleDeleteRequest_filter [OF x False] step_ok_def by auto
  qed
qed

lemma handleUpdateRequest_step:
  assumes "collection_ok e" and "R = JUndefined \<or> json_ok R"
    and "handleUpdateRequest R i e cors = Ok (r, e')"
  shows "step_ok e e'"
proof -
  from collection_ok_read [OF assms(1)] obtain xs where x: "read_websites e = Ok (JArr xs)" ..
  have el: "\<forall>x \<in> set (assign_index xs i R). x = JUndefined \<or> json_ok x"
  proof (cases i)
    case (JNum k)
    have "set (xs[nat k := R]) \<subseteq> insert R (set xs)" by (rule set_update_subset_insert)
    with read_websites_ok [OF x] assms(2) show ?thesis
      by (auto simp: JNum assign_index_def list_all_iff)
  qed (use read_websites_ok [OF x] in \<open>auto simp: assign_index_def list_all_iff\<close>)
  have w: "is_array_text (JSON_stringify (JArr (assign_index xs i R)))"
    using el by (rule array_text_written)
  show ?thesis
  proof (cases "ToNumber i")
    case (Ok n)
    with assms(3) x w show ?thesis
      by (auto simp: handleUpdateRequest_def bind_js_def try_catch_def step_ok_def
          simp del: JSON_stringify.simps split: if_splits)
  next
    case Thrown
    with assms(3) x show ?thesis
      by (simp add: handleUpdateRequest_def bind_js_def try_catch_def step_ok_def)
  next
    case Beyond
    with assms(3) x show ?thesis
      by (simp add: handleUpdateRequest_def bind_js_def try_catch_def)
  qed
qed

lemma try_catch_idem: "try_catch (try_catch X h) h' = try_catch X h"
  by (cases X) (simp_all add: try_catch_def)

lemma handleApiRequest_dispatch:
  assumes "req_method req = ''POST''" and "JSON_parse (body_text req) = Ok d"
    and "get_prop d ''action'' = Ok a"
  shows "handleApiRequest req e cors =
     (if a = JStr ''get'' then handleGetRequest e cors
      else if a = JStr ''add'' then handleAddRequest (prop_of d ''data'') e cors
      else if a = JStr ''update'' then
        handleUpdateRequest (prop_of d ''data'') (prop_of d ''index'') e cors
      else if a = JStr ''delete'' then handleDeleteRequest (prop_of d ''id'') e cors
      else Ok (\<lparr>status = 400, body = ''Invalid action'', headers = cors\<rparr>, e))"
proof -
  from assms(3) have "d \<noteq> JNull" "d \<noteq> JUndefined" by (auto simp: get_prop_def)
  then have p: "get_prop d k = Ok (prop_of d k)" for k by (rule get_prop_defined)
  have "try_catch (handleGetRequest e cors) h = handleGetRequest e cors"
    "try_catch (handleAddRequest x e cors) h = handleAddRequest x e cors"
    "try_catch (handleUpdateRequest x y e cors) h = handleUpdateRequest x y e cors"
    "try_catch (handleDeleteRequest x e cors) h = handleDeleteRequest x e cors" for x y h
    unfolding handleGetRequest_def handleAddRequest_def handleUpdateRequest_def
      handleDeleteRequest_def by (rule try_catch_idem)+
  moreover have "try_catch (Ok y) h = Ok y" for y :: "response \<times> env" and h
    by (simp add: try_catch_def)
  ultimately show ?thesis
    using assms by (simp add: handleApiRequest_def bind_js_def p)
qed

lemma get_prop_request_value:
  assumes "json_ok d"
  shows "prop_of d k = JUndefined \<or> json_ok (prop_of d k)"
proof (cases d)
  case (JObj kvs)
  show ?thesis
  proof (cases "map_of kvs k")
    case None
    then show ?thesis by (simp add: JObj prop_of_def get_prop_def)
  next
    case (Some x)
    then have "(k, x) \<in> set kvs" by (rule map_of_SomeD)
    with assms JObj have "json_ok x" by (auto simp: list_all_iff)
    with Some show ?thesis by (simp add: JObj prop_of_def get_prop_def)
  qed
qed (simp_all add: prop_of_def get_prop_def)

lemma handleApiRequest_step:
  assumes "collection_ok e" and "handleApiRequest req e cors = Ok (r, e')"
  shows "step_ok e e'"
proof (cases "req_method req = ''POST''")
  case False
  with assms(2) show ?thesis by (simp add: handleApiRequest_def step_ok_def)
next
  case True
  show ?thesis
  proof (cases "JSON_parse (body_text req)")
    case (Ok d)
    then have d: "json_ok d" by (rule JSON_parse_ok)
    show ?thesis
    proof (cases "get_prop d ''action''")
      case a: (Ok a)
      note eq = handleApiRequest_dispatch [OF True Ok a, of e cors]
      consider "a = JStr ''get''" | "a = JStr ''add''" | "a = JStr ''update''"
        | "a = JStr ''delete''"
        | "a \<noteq> JStr ''get''" "a \<noteq> JStr ''add''" "a \<noteq> JStr ''update''" "a \<noteq> JStr ''delete''"
        by blast
      then show ?thesis
      proof cases
        case 1
        with eq assms(2) have "handleGetRequest e cors = Ok (r, e')" by simp
        then show ?thesis by (rule handleGetRequest_step)
      next
        case 2
        with eq assms(2) have "handleAddRequest (prop_of d ''data'') e cors = Ok (r, e')" by simp
        with assms(1) get_prop_request_value [OF d] show ?thesis
          by (rule handleAddRequest_step)
      next
        case 3
        with eq assms(2)
        have "handleUpdateRequest (prop_of d ''data'') (prop_of d ''index'') e cors = Ok (r, e')"
          by simp
        with assms(1) get_prop_request_value [OF d] show ?thesis
          by (rule handleUpdateRequest_step)
      next
        case 4
        with eq assms(2) have "handleDeleteRequest (prop_of d ''id'') e cors = Ok (r, e')" by simp
        with assms(1) show ?thesis by (rule handleDeleteRequest_step)
      next
        case 5
        with eq assms(2) show ?thesis by (simp add: step_ok_def)
      qed
    next
      case Thrown
      with True Ok assms(2) show ?thesis
        by (simp add: handleApiRequest_def bind_js_def try_catch_def step_ok_def)
    next
      case Beyond
      with True Ok assms(2) show ?thesis
        by (simp add: handleApiRequest_def bind_js_def try_catch_def)
    qed
  next
    case Thrown
    with True assms(2) show ?thesis
      by (simp add: handleApiRequest_def bind_js_def try_catch_def step_ok_def)
  next
    case Beyond
    with True assms(2) show ?thesis
      by (simp add: handleApiRequest_def bind_js_def try_catch_def)
  qed
qed

lemma serveStaticFile_env: "snd (serveStaticFile path e) = e"
  by (simp add: serveStaticFile_def Let_def split: option.splits)

lemma fetch_step:
  assumes "collection_ok e" and "fetch req e = Ok (r, e')"
  shows "step_ok e e'"
proof (cases "req_method req = ''POST''
    \<and> (endsWith (pathname req) ''/worker.js'' \<or> startsWith (pathname req) ''/api/'')")
  case True
  with assms(2) have "handleApiRequest req e corsHeaders = Ok (r, e')"
    by (simp add: fetch_def)
  with assms(1) show ?thesis by (rule handleApiRequest_step)
next
  case False
  with assms(2) have "e' = e"
    using serveStaticFile_env [of "pathname req" e] serveStaticFile_env [of "''/index.html''" e]
    by (auto simp: fetch_def Let_def split: if_splits)
  then show ?thesis by (simp add: step_ok_def)
qed

lemma str_ok_more: "str_ok ''data''" "\<not> index_like ''data''" "str_ok ''add''"
  by (simp_all add: str_ok_def index_like_def is_digit_def)

lemma endsWith_append: "endsWith s p = (\<exists>u. s = u @ p)"
proof
  assume "endsWith s p"
  then have "s = take (length s - length p) s @ p"
    by (metis append_take_drop_id endsWith_def)
  then show "\<exists>u. s = u @ p" ..
next
  assume "\<exists>u. s = u @ p"
  then show "endsWith s p" by (auto simp: endsWith_def)
qed

lemma endsWith_last2:
  assumes "endsWith s p" and "2 \<le> length p"
  shows "take 2 (rev s) = take 2 (rev p)"
proof -
  from assms(1) obtain u where "s = u @ p" by (auto simp: endsWith_append)
  with assms(2) show ?thesis by simp
qed

lemma suffix_clash:
  assumes "endsWith k p" and "endsWith k q"
  shows "2 \<le> length p \<and> 2 \<le> length q \<longrightarrow> take 2 (rev p) = take 2 (rev q)"
proof
  assume "2 \<le> length p \<and> 2 \<le> length q"
  then have "take 2 (rev k) = take 2 (rev p)" "take 2 (rev k) = take 2 (rev q)"
    using endsWith_last2 [OF assms(1)] endsWith_last2 [OF assms(2)] by blast+
  then show "take 2 (rev p) = take 2 (rev q)" by (rule trans [OF sym])
qed

lemma suffix_disjoint:
  "endsWith k ''.css'' \<Longrightarrow> \<not> endsWith k ''.html''"
  "endsWith k ''.js'' \<Longrightarrow> \<not> endsWith k ''.html''"
  "endsWith k ''.js'' \<Longrightarrow> \<not> endsWith k ''.css''"
  "endsWith k ''.png'' \<Longrightarrow> \<not> endsWith k ''.html''"
  "endsWith k ''.png'' \<Longrightarrow> \<not> endsWith k ''.css''"
  "endsWith k ''.png'' \<Longrightarrow> \<not> endsWith k ''.js''"
  "endsWith k ''.jpg'' \<Longrightarrow> \<not> endsWith k ''.html''"
  "endsWith k ''.jpg'' \<Longrightarrow> \<not> endsWith k ''.css''"
  "endsWith k ''.jpg'' \<Longrightarrow> \<not> endsWith k ''.js''"
  "endsWith k ''.jpg'' \<Longrightarrow> \<not> endsWith k ''.png''"
  "endsWith k ''.jpeg'' \<Longrightarrow> \<not> endsWith k ''.html''"
  "endsWith k ''.jpeg'' \<Longrightarrow> \<not> endsWith k ''.css''"
  "endsWith k ''.jpeg'' \<Longrightarrow> \<not> endsWith k ''.js''"
  "endsWith k ''.jpeg'' \<Longrightarrow> \<not> endsWith k ''.png''"
  "endsWith k ''.svg'' \<Longrightarrow> \<not> endsWith k ''.html''"
  "endsWith k ''.svg'' \<Longrightarrow> \<not> endsWith k ''.css''"
  "endsWith k ''.svg'' \<Longrightarrow> \<not> endsWith k ''.js''"
  "endsWith k ''.svg'' \<Longrightarrow> \<not> endsWith k ''.png''"
  "endsWith k ''.svg'' \<Longrightarrow> \<not> endsWith k ''.jpg''"
  "endsWith k ''.svg'' \<Longrightarrow> \<not> endsWith k ''.jpeg''"
  by (rule notI, drule (1) suffix_clash, simp)+

lemma getContentType_table:
  "endsWith k ''.html'' \<Longrightarrow> getContentType k = ''text/html''"
  "endsWith k ''.css'' \<Longrightarrow> getContentType k = ''text/css''"
  "endsWith k ''.js'' \<Longrightarrow> getContentType k = ''application/javascript''"
  "endsWith k ''.png'' \<Longrightarrow> getContentType k = ''image/png''"
  "endsWith k ''.jpg'' \<Longrightarrow> getContentType k = ''image/jpeg''"
  "endsWith k ''.jpeg'' \<Longrightarrow> getContentType k = ''image/jpeg''"
  "endsWith k ''.svg'' \<Longrightarrow> getContentType k = ''image/svg+xml''"
  unfolding getContentType_def by (simp_all add: suffix_disjoint)

lemma serveStaticFile_slash:
  "serveStaticFile (CHR ''/'' # key) e =
     (case KV_get e key of
        Some v \<Rightarrow>
          if v \<noteq> [] then
            (\<lparr>status = 200, body = v, headers = [(''Content-Type'', getContentType key)]\<rparr>, e)
          else (\<lparr>status = 404, body = ''File not found'',
                 headers = [(''Content-Type'', ''text/plain'')]\<rparr>, e)
      | None \<Rightarrow> (\<lparr>status = 404, body = ''File not found'',
                 headers = [(''Content-Type'', ''text/plain'')]\<rparr>, e))"
  by (simp add: serveStaticFile_def startsWith_def starts_def)

lemma serveStaticFile_status:
  "status (fst (serveStaticFile path e)) = 200 \<or> status (fst (serveStaticFile path e)) = 404"
  by (simp add: serveStaticFile_def Let_def split: option.splits)

lemma try_catch_status:
  assumes "try_catch X (h, e) = Ok (r, e')" and "status h \<noteq> 405"
    and "\<And>r e'. X = Ok (r, e') \<Longrightarrow> status r \<noteq> 405"
  shows "status r \<noteq> 405"
  using try_catch_Ok [OF assms(1)] assms(2,3) by auto

lemma handleGetRequest_status: "handleGetRequest e cors = Ok (r, e') \<Longrightarrow> status r \<noteq> 405"
  unfolding handleGetRequest_def
  by (erule try_catch_status) (auto simp: json_response_def dest!: bind_js_Ok)

lemma handleAddRequest_status: "handleAddRequest R e cors = Ok (r, e') \<Longrightarrow> status r \<noteq> 405"
  unfolding handleAddRequest_def
  by (erule try_catch_status) (auto simp: json_response_def dest!: bind_js_Ok split: json.splits)

lemma handleDeleteRequest_status: "handleDeleteRequest i e cors = Ok (r, e') \<Longrightarrow> status r \<noteq> 405"
  unfolding handleDeleteRequest_def
  by (erule try_catch_status) (auto simp: json_response_def dest!: bind_js_Ok split: json.splits)

lemma handleUpdateRequest_status:
  "handleUpdateRequest R i e cors = Ok (r, e') \<Longrightarrow> status r \<noteq> 405"
  unfolding handleUpdateRequest_def
  by (erule try_catch_status)
    (auto simp: json_response_def dest!: bind_js_Ok split: json.splits if_splits)

lemma fetch_never_405:
  assumes "fetch req e = Ok (r, e')"
  shows "status r \<noteq> 405"
proof (cases "req_method req = ''POST''")
  case False
  with assms have "r = \<lparr>status = 200, body = ''OK'', headers = corsHeaders\<rparr>
      \<or> r = fst (serveStaticFile (pathname req) e) \<or> r = fst (serveStaticFile ''/index.html'' e)"
    by (auto simp: fetch_def Let_def split: if_splits)
  with serveStaticFile_status [of "pathname req" e] serveStaticFile_status [of "''/index.html''" e]
  show ?thesis by auto
next
  case True
  show ?thesis
  proof (cases "endsWith (pathname req) ''/worker.js'' \<or> startsWith (pathname req) ''/api/''")
    case False
    with True assms have "r = fst (serveStaticFile (pathname req) e)
        \<or> r = fst (serveStaticFile ''/index.html'' e)"
      by (auto simp: fetch_def Let_def split: if_splits)
    with serveStaticFile_status [of "pathname req" e] serveStaticFile_status [of "''/index.html''" e]
    show ?thesis by auto
  next
    case api: True
    with True assms have h: "handleApiRequest req e corsHeaders = Ok (r, e')"
      by (simp add: fetch_def)
    show ?thesis
    proof (cases "JSON_parse (body_text req)")
      case (Ok d)
      show ?thesis
      proof (cases "get_prop d ''action''")
        case a: (Ok a)
        from h show ?thesis
          unfolding handleApiRequest_dispatch [OF True Ok a]
          by (auto dest: handleGetRequest_status handleAddRequest_status
              handleUpdateRequest_status handleDeleteRequest_status split: if_splits)
      next
        case Thrown
        with True Ok h show ?thesis
          by (auto simp: handleApiRequest_def bind_js_def try_catch_def)
      next
        case Beyond
        with True Ok h show ?thesis
          by (simp add: handleApiRequest_def bind_js_def try_catch_def)
      qed
    next
      case Thrown
      with True h show ?thesis
        by (auto simp: handleApiRequest_def bind_js_def try_catch_def)
    next
      case Beyond
      with True h show ?thesis
        by (simp add: handleApiRequest_def bind_js_def try_catch_def)
    qed
  qed
qed

lemma handleApiRequest_not_post:
  "req_method req \<noteq> ''POST'' \<Longrightarrow>
   handleApiRequest req e cors
     = Ok (\<lparr>status = 405, body = ''Method not allowed'', headers = cors\<rparr>, e)"
  by (simp add: handleApiRequest_def)

lemma strict_eq_primitive: "is_primitive i \<Longrightarrow> strict_eq a i = (a = i)"
  by (cases a; cases i) (simp_all add: is_primitive_def)

lemma parse_null_array: "JSON_parse ''[null]'' = Ok (JArr [JNull])"
  by code_simp

lemma str_ok_x: "str_ok ''x''" "str_ok ''action''" "str_ok ''delete''"
  by (simp_all add: str_ok_def)

section \<open>The claims\<close>

text \<open>
  In the theorems below, \<open>read_websites e = Ok (JArr xs)\<close> says that the stored
  collection is \<open>xs\<close>: it is what every handler reads first, the array whose text is
  under the key \<^verbatim>\<open>websites\<close>, or the empty array when the key is absent.
\<close>

lemma parse_12: "JSON_parse ''[1,2]'' = Ok (JArr [JNum 1, JNum 2])"
  by code_simp

text \<open>
  C3: for a stored collection of length \<open>N\<close>, any record \<open>R\<close> and any integer
  \<open>i\<close> with \<open>i < 0\<close> or \<open>i \<ge> N\<close>, the update action answers 400 with the body
  \<^verbatim>\<open>Invalid index\<close> and writes nothing: the store and the list of its \<^verbatim>\<open>put\<close>
  calls are as before.
\<close>

theorem update_invalid_index:
  assumes "read_websites e = Ok (JArr xs)" and "i < 0 \<or> int (length xs) \<le> i"
  shows "handleUpdateRequest R (JNum i) e cors
       = Ok (\<lparr>status = 400, body = ''Invalid index'', headers = cors\<rparr>, e)"
  using assms by (rule handleUpdateRequest_out_of_range)

theorem update_invalid_index_witness:
  "read_websites \<lparr>WEBSITES_KV = [''websites'' \<mapsto> ''[1,2]''], puts = []\<rparr> = Ok (JArr [JNum 1, JNum 2])
   \<and> ((2::int) < 0 \<or> int (length [JNum 1, JNum 2]) \<le> 2)
   \<and> handleUpdateRequest JNull (JNum 2) \<lparr>WEBSITES_KV = [''websites'' \<mapsto> ''[1,2]''], puts = []\<rparr> corsHeaders
       = Ok (\<lparr>status = 400, body = ''Invalid index'', headers = corsHeaders\<rparr>,
             \<lparr>WEBSITES_KV = [''websites'' \<mapsto> ''[1,2]''], puts = []\<rparr>)"
proof -
  have r: "read_websites \<lparr>WEBSITES_KV = [''websites'' \<mapsto> ''[1,2]''], puts = []\<rparr>
      = Ok (JArr [JNum 1, JNum 2])"
    by (simp add: read_websites_def KV_get_def parse_12)
  have i: "(2::int) < 0 \<or> int (length [JNum 1, JNum 2]) \<le> 2" by simp
  from update_invalid_index [OF r i] r i show ?thesis by simp
qed

text \<open>
  C2: for a stored collection of length \<open>N\<close>, a record \<open>R\<close> and an integer \<open>i\<close> with
  \<open>0 \<le> i < N\<close>, the update action with data \<open>R\<close> and index \<open>i\<close> succeeds, and the
  get action after it answers a collection of length \<open>N\<close> whose element \<open>i\<close> is
  \<open>R\<close> and whose other elements are those of before.
\<close>

theorem update_then_get:
  assumes "read_websites e = Ok (JArr xs)" and "json_ok R" and "0 \<le> i" and "i < int (length xs)"
  shows "\<exists>e' ys.
      handleUpdateRequest R (JNum i) e cors = Ok (json_response success cors, e')
    \<and> handleGetRequest e' cors = Ok (json_response (JObj [(''websites'', JArr ys)]) cors, e')
    \<and> JSON_parse (body (json_response (JObj [(''websites'', JArr ys)]) cors))
        = Ok (JObj [(''websites'', JArr ys)])
    \<and> length ys = length xs \<and> ys ! nat i = R
    \<and> (\<forall>j < length xs. j \<noteq> nat i \<longrightarrow> ys ! j = xs ! j)"
proof -
  let ?ys = "xs[nat i := R]"
  let ?e = "KV_put ''websites'' (JSON_stringify (JArr ?ys)) e"
  have ok: "list_all json_ok ?ys"
    using read_websites_ok [OF assms(1)] assms(2) by (rule list_all_list_update)
  have u: "handleUpdateRequest R (JNum i) e cors = Ok (json_response success cors, ?e)"
    using assms(1,3,4) by (rule handleUpdateRequest_in_range)
  have g: "handleGetRequest ?e cors = Ok (json_response (JObj [(''websites'', JArr ?ys)]) cors, ?e)"
    using read_after_put [OF ok] by (rule handleGetRequest_read)
  have n: "?ys ! nat i = R" using assms(3,4) by simp
  from u g get_body_parses [OF ok] n show ?thesis
    by (intro exI [of _ ?e] exI [of _ ?ys]) simp
qed

theorem update_then_get_witness:
  "read_websites \<lparr>WEBSITES_KV = [''websites'' \<mapsto> ''[1,2]''], puts = []\<rparr> = Ok (JArr [JNum 1, JNum 2])
   \<and> json_ok (JObj [(''id'', JStr ''a'')]) \<and> (0::int) \<le> 1 \<and> (1::int) < int (length [JNum 1, JNum 2])
   \<and> (\<exists>e' ys.
      handleUpdateRequest (JObj [(''id'', JStr ''a'')]) (JNum 1)
        \<lparr>WEBSITES_KV = [''websites'' \<mapsto> ''[1,2]''], puts = []\<rparr> corsHeaders
        = Ok (json_response success corsHeaders, e')
    \<and> handleGetRequest e' corsHeaders
        = Ok (json_response (JObj [(''websites'', JArr ys)]) corsHeaders, e')
    \<and> JSON_parse (body (json_response (JObj [(''websites'', JArr ys)]) corsHeaders))
        = Ok (JObj [(''websites'', JArr ys)])
    \<and> length ys = length [JNum 1, JNum 2] \<and> ys ! nat 1 = JObj [(''id'', JStr ''a'')]
    \<and> (\<forall>j < length [JNum 1, JNum 2]. j \<noteq> nat 1 \<longrightarrow> ys ! j = [JNum 1, JNum 2] ! j))"
proof -
  have r: "read_websites \<lparr>WEBSITES_KV = [''websites'' \<mapsto> ''[1,2]''], puts = []\<rparr>
      = Ok (JArr [JNum 1, JNum 2])"
    by (simp add: read_websites_def KV_get_def parse_12)
  have k: "json_ok (JObj [(''id'', JStr ''a'')])"
    by (simp add: str_ok_def index_like_def is_digit_def)
  have z: "(0::int) \<le> 1" by simp
  have l: "(1::int) < int (length [JNum 1, JNum 2])" by simp
  from update_then_get [OF r k z l, of corsHeaders] r k z l show ?thesis
    by (intro conjI) assumption+
qed

text \<open>
  C5: for a record \<open>R\<close> and a stored collection, an absent key counting as the empty
  collection, the add action succeeds and the get action after it answers a collection
  whose last element is \<open>R\<close> and whose length is one more than before.
\<close>

theorem add_then_get:
  assumes "KV_get e ''websites'' = None \<and> xs = []
         \<or> (\<exists>t. KV_get e ''websites'' = Some t \<and> JSON_parse t = Ok (JArr xs))"
    and "json_ok R"
  shows "\<exists>e' ys.
      handleAddRequest R e cors = Ok (json_response success cors, e')
    \<and> handleGetRequest e' cors = Ok (json_response (JObj [(''websites'', JArr ys)]) cors, e')
    \<and> JSON_parse (body (json_response (JObj [(''websites'', JArr ys)]) cors))
        = Ok (JObj [(''websites'', JArr ys)])
    \<and> ys \<noteq> [] \<and> last ys = R \<and> length ys = length xs + 1"
proof -
  let ?ys = "xs @ [R]"
  let ?e = "KV_put ''websites'' (JSON_stringify (JArr ?ys)) e"
  have r: "read_websites e = Ok (JArr xs)" using assms(1) by (rule stored_read)
  have ok: "list_all json_ok ?ys"
    using read_websites_ok [OF r] assms(2) by simp
  have a: "handleAddRequest R e cors = Ok (json_response success cors, ?e)"
    using r by (rule handleAddRequest_array)
  have g: "handleGetRequest ?e cors = Ok (json_response (JObj [(''websites'', JArr ?ys)]) cors, ?e)"
    using read_after_put [OF ok] by (rule handleGetRequest_read)
  from a g get_body_parses [OF ok] show ?thesis
    by (intro exI [of _ ?e] exI [of _ ?ys]) simp
qed

theorem add_then_get_witness:
  "(KV_get \<lparr>WEBSITES_KV = Map.empty, puts = []\<rparr> ''websites'' = None \<and> ([]::json list) = []
     \<or> (\<exists>t. KV_get \<lparr>WEBSITES_KV = Map.empty, puts = []\<rparr> ''websites'' = Some t
           \<and> JSON_parse t = Ok (JArr [])))
   \<and> json_ok (JObj [(''id'', JStr ''a'')])
   \<and> (\<exists>e' ys.
      handleAddRequest (JObj [(''id'', JStr ''a'')]) \<lparr>WEBSITES_KV = Map.empty, puts = []\<rparr> corsHeaders
        = Ok (json_response success corsHeaders, e')
    \<and> handleGetRequest e' corsHeaders
        = Ok (json_response (JObj [(''websites'', JArr ys)]) corsHeaders, e')
    \<and> JSON_parse (body (json_response (JObj [(''websites'', JArr ys)]) corsHeaders))
        = Ok (JObj [(''websites'', JArr ys)])
    \<and> ys \<noteq> [] \<and> last ys = JObj [(''id'', JStr ''a'')] \<and> length ys = length ([]::json list) + 1)"
proof -
  have s: "KV_get \<lparr>WEBSITES_KV = Map.empty, puts = []\<rparr> ''websites'' = None \<and> ([]::json list) = []
     \<or> (\<exists>t. KV_get \<lparr>WEBSITES_KV = Map.empty, puts = []\<rparr> ''websites'' = Some t
           \<and> JSON_parse t = Ok (JArr []))"
    by (simp add: KV_get_def)
  have k: "json_ok (JObj [(''id'', JStr ''a'')])"
    by (simp add: str_ok_def index_like_def is_digit_def)
  from add_then_get [OF s k, of corsHeaders] s k show ?thesis
    by (intro conjI) assumption+
qed

text \<open>
  C4, amended: for an identifier that is a string, a number, a boolean or \<^verbatim>\<open>null\<close>, or
  that the request does not carry, and a stored collection none of whose elements is
  \<^verbatim>\<open>null\<close>, the delete action answers 200 with the body \<^verbatim>\<open>{"success":true}\<close> and
  writes back the elements whose \<^verbatim>\<open>id\<close> field is not the identifier, in their order;
  the get action after it answers that collection; and when no element has the identifier
  the collection written back is the one that was read.
\<close>

theorem delete_then_get:
  assumes "read_websites e = Ok (JArr xs)" and "JNull \<notin> set xs" and "is_primitive i"
    and "ys = filter (\<lambda>w. prop_of w ''id'' \<noteq> i) xs"
    and "e' = KV_put ''websites'' (JSON_stringify (JArr ys)) e"
  shows "handleDeleteRequest i e cors
           = Ok (\<lparr>status = 200, body = JSON_stringify (JObj [(''success'', JBool True)]),
                  headers = (''Content-Type'', ''application/json'') # cors\<rparr>, e')
       \<and> JSON_parse (JSON_stringify (JObj [(''success'', JBool True)]))
           = Ok (JObj [(''success'', JBool True)])
       \<and> WEBSITES_KV e' ''websites'' = Some (JSON_stringify (JArr ys))
       \<and> puts e' = puts e @ [(''websites'', JSON_stringify (JArr ys))]
       \<and> handleGetRequest e' cors
           = Ok (\<lparr>status = 200, body = JSON_stringify (JObj [(''websites'', JArr ys)]),
                  headers = (''Content-Type'', ''application/json'') # cors\<rparr>, e')
       \<and> JSON_parse (JSON_stringify (JObj [(''websites'', JArr ys)]))
           = Ok (JObj [(''websites'', JArr ys)])
       \<and> (\<forall>w \<in> set ys. prop_of w ''id'' \<noteq> i)
       \<and> (\<forall>w \<in> set xs. prop_of w ''id'' \<noteq> i \<longrightarrow> w \<in> set ys)
       \<and> ((\<forall>w \<in> set xs. prop_of w ''id'' \<noteq> i) \<longrightarrow> ys = xs)"
proof -
  have eq: "filter (\<lambda>w. \<not> strict_eq (prop_of w ''id'') i) xs = ys"
    using assms(3,4) by (simp add: strict_eq_primitive)
  have ok: "list_all json_ok ys"
    using read_websites_ok [OF assms(1)] assms(4) by (simp add: list_all_iff)
  have d: "handleDeleteRequest i e cors
      = Ok (\<lparr>status = 200, body = JSON_stringify (JObj [(''success'', JBool True)]),
              headers = (''Content-Type'', ''application/json'') # cors\<rparr>, e')"
    using handleDeleteRequest_filter [OF assms(1,2), of i cors]
    unfolding eq assms(5) by (simp add: json_response_def success_def del: JSON_stringify.simps)
  have s: "JSON_parse (JSON_stringify (JObj [(''success'', JBool True)]))
      = Ok (JObj [(''success'', JBool True)])"
    by (rule json_roundtrip) (simp add: str_ok_def index_like_def is_digit_def)
  have k: "WEBSITES_KV e' ''websites'' = Some (JSON_stringify (JArr ys))"
    and p: "puts e' = puts e @ [(''websites'', JSON_stringify (JArr ys))]"
    unfolding assms(5) by (simp_all add: KV_put_def del: JSON_stringify.simps)
  have g: "handleGetRequest e' cors
      = Ok (\<lparr>status = 200, body = JSON_stringify (JObj [(''websites'', JArr ys)]),
              headers = (''Content-Type'', ''application/json'') # cors\<rparr>, e')"
    using handleGetRequest_read [OF read_after_put [OF ok], of e cors]
    unfolding assms(5) by (simp add: json_response_def del: JSON_stringify.simps)
  have b: "JSON_parse (JSON_stringify (JObj [(''websites'', JArr ys)]))
      = Ok (JObj [(''websites'', JArr ys)])"
    using websites_object_ok [OF ok] by (rule json_roundtrip)
  have n: "\<forall>w \<in> set ys. prop_of w ''id'' \<noteq> i"
    and m: "\<forall>w \<in> set xs. prop_of w ''id'' \<noteq> i \<longrightarrow> w \<in> set ys"
    and u: "(\<forall>w \<in> set xs. prop_of w ''id'' \<noteq> i) \<longrightarrow> ys = xs"
    unfolding assms(4) by (simp_all add: filter_id_conv)
  from d s k p g b n m u show ?thesis by (intro conjI) assumption+
qed

theorem delete_then_get_witness:
  "read_websites (store_of (JArr [JObj [(''id'', JStr ''a'')], JObj [(''id'', JStr ''b'')]]))
     = Ok (JArr [JObj [(''id'', JStr ''a'')], JObj [(''id'', JStr ''b'')]])
   \<and> JNull \<notin> set [JObj [(''id'', JStr ''a'')], JObj [(''id'', JStr ''b'')]]
   \<and> is_primitive (JStr ''b'')
   \<and> [JObj [(''id'', JStr ''a'')]]
       = filter (\<lambda>w. prop_of w ''id'' \<noteq> JStr ''b'')
           [JObj [(''id'', JStr ''a'')], JObj [(''id'', JStr ''b'')]]
   \<and> handleDeleteRequest (JStr ''b'')
        (store_of (JArr [JObj [(''id'', JStr ''a'')], JObj [(''id'', JStr ''b'')]])) corsHeaders
       = Ok (\<lparr>status = 200,
               body = ''{'' @ [CHR 0x22] @ ''success'' @ [CHR 0x22] @ '':true}'',
               headers = (''Content-Type'', ''application/json'') # corsHeaders\<rparr>,
             KV_put ''websites'' (JSON_stringify (JArr [JObj [(''id'', JStr ''a'')]]))
               (store_of (JArr [JObj [(''id'', JStr ''a'')], JObj [(''id'', JStr ''b'')]])))
   \<and> JSON_stringify (JArr [JObj [(''id'', JStr ''a'')]])
       = ''[{'' @ [CHR 0x22] @ ''id'' @ [CHR 0x22] @ '':'' @ [CHR 0x22] @ ''a'' @ [CHR 0x22] @ ''}]''
   \<and> handleGetRequest
        (KV_put ''websites'' (JSON_stringify (JArr [JObj [(''id'', JStr ''a'')]]))
          (store_of (JArr [JObj [(''id'', JStr ''a'')], JObj [(''id'', JStr ''b'')]]))) corsHeaders
       = Ok (\<lparr>status = 200,
               body = JSON_stringify (JObj [(''websites'', JArr [JObj [(''id'', JStr ''a'')]])]),
               headers = (''Content-Type'', ''application/json'') # corsHeaders\<rparr>,
             KV_put ''websites'' (JSON_stringify (JArr [JObj [(''id'', JStr ''a'')]]))
               (store_of (JArr [JObj [(''id'', JStr ''a'')], JObj [(''id'', JStr ''b'')]])))
   \<and> JSON_parse (JSON_stringify (JObj [(''websites'', JArr [JObj [(''id'', JStr ''a'')]])]))
       = Ok (JObj [(''websites'', JArr [JObj [(''id'', JStr ''a'')]])])"
proof -
  let ?xs = "[JObj [(''id'', JStr ''a'')], JObj [(''id'', JStr ''b'')]]"
  let ?ys = "[JObj [(''id'', JStr ''a'')]]"
  let ?e = "store_of (JArr ?xs)"
  let ?e' = "KV_put ''websites'' (JSON_stringify (JArr ?ys)) ?e"
  have r: "read_websites ?e = Ok (JArr ?xs)"
    by (rule read_store_of) (simp add: str_ok_names)
  have n: "JNull \<notin> set ?xs" by simp
  have i: "is_primitive (JStr ''b'')" by (simp add: is_primitive_def)
  have f: "?ys = filter (\<lambda>w. prop_of w ''id'' \<noteq> JStr ''b'') ?xs"
    by (simp add: prop_of_def get_prop_def)
  have t: "JSON_stringify (JArr ?ys)
      = ''[{'' @ [CHR 0x22] @ ''id'' @ [CHR 0x22] @ '':'' @ [CHR 0x22] @ ''a'' @ [CHR 0x22] @ ''}]''"
    by (simp add: quote_def escape_def dquote_def backslash_def)
  have s: "JSON_stringify (JObj [(''success'', JBool True)])
      = ''{'' @ [CHR 0x22] @ ''success'' @ [CHR 0x22] @ '':true}''"
    by (simp add: quote_def escape_def dquote_def backslash_def)
  note d = delete_then_get [OF r n i f refl, of corsHeaders]
  from d [THEN conjunct1] have a: "handleDeleteRequest (JStr ''b'') ?e corsHeaders
       = Ok (\<lparr>status = 200,
               body = ''{'' @ [CHR 0x22] @ ''success'' @ [CHR 0x22] @ '':true}'',
               headers = (''Content-Type'', ''application/json'') # corsHeaders\<rparr>, ?e')"
    unfolding s .
  from d have g: "handleGetRequest ?e' corsHeaders
       = Ok (\<lparr>status = 200,
               body = JSON_stringify (JObj [(''websites'', JArr ?ys)]),
               headers = (''Content-Type'', ''application/json'') # corsHeaders\<rparr>, ?e')"
    and b: "JSON_parse (JSON_stringify (JObj [(''websites'', JArr ?ys)]))
       = Ok (JObj [(''websites'', JArr ?ys)])"
    by blast+
  from r n i f a t g b show ?thesis by (intro conjI) assumption+
qed

text \<open>
  C4 fails on the code in two ways. An add request without a \<^verbatim>\<open>data\<close> field stores
  the collection \<^verbatim>\<open>[null]\<close>, and on it a delete request is answered 500 and writes
  nothing. And on the collection \<^verbatim>\<open>[{"id":[1]}]\<close> a delete with the identifier
  \<^verbatim>\<open>[1]\<close> leaves the element in place.
\<close>

theorem delete_counterexample:
  "fetch \<lparr>req_method = ''POST'', pathname = ''/api/websites'',
        body_text = JSON_stringify (JObj [(''action'', JStr ''add'')])\<rparr>
     \<lparr>WEBSITES_KV = Map.empty, puts = []\<rparr>
   = Ok (\<lparr>status = 200, body = JSON_stringify (JObj [(''success'', JBool True)]),
           headers = (''Content-Type'', ''application/json'') # corsHeaders\<rparr>,
         \<lparr>WEBSITES_KV = [''websites'' \<mapsto> ''[null]''], puts = [(''websites'', ''[null]'')]\<rparr>)
   \<and> fetch \<lparr>req_method = ''POST'', pathname = ''/api/websites'',
        body_text = JSON_stringify (JObj [(''action'', JStr ''delete''), (''id'', JStr ''x'')])\<rparr>
     \<lparr>WEBSITES_KV = [''websites'' \<mapsto> ''[null]''], puts = [(''websites'', ''[null]'')]\<rparr>
   = Ok (\<lparr>status = 500, body = ''Error deleting website'', headers = corsHeaders\<rparr>,
         \<lparr>WEBSITES_KV = [''websites'' \<mapsto> ''[null]''], puts = [(''websites'', ''[null]'')]\<rparr>)
   \<and> (\<exists>e'. handleDeleteRequest (JArr [JNum 1])
          (store_of (JArr [JObj [(''id'', JArr [JNum 1])]])) corsHeaders
          = Ok (\<lparr>status = 200, body = JSON_stringify (JObj [(''success'', JBool True)]),
                  headers = (''Content-Type'', ''application/json'') # corsHeaders\<rparr>, e')
        \<and> read_websites e' = Ok (JArr [JObj [(''id'', JArr [JNum 1])]]))"
proof (intro conjI)
  let ?e0 = "\<lparr>WEBSITES_KV = Map.empty, puts = []\<rparr>"
  let ?e1 = "\<lparr>WEBSITES_KV = [''websites'' \<mapsto> ''[null]''], puts = [(''websites'', ''[null]'')]\<rparr>"
  let ?a = "JObj [(''action'', JStr ''add'')]"
  let ?d = "JObj [(''action'', JStr ''delete''), (''id'', JStr ''x'')]"
  let ?ra = "\<lparr>req_method = ''POST'', pathname = ''/api/websites'', body_text = JSON_stringify ?a\<rparr>"
  let ?rd = "\<lparr>req_method = ''POST'', pathname = ''/api/websites'', body_text = JSON_stringify ?d\<rparr>"
  have api: "startsWith ''/api/websites'' ''/api/''" by (simp add: startsWith_def starts_def)
  have pa: "JSON_parse (body_text ?ra) = Ok ?a"
    using json_roundtrip [of ?a] by (simp add: str_ok_names str_ok_more del: JSON_stringify.simps)
  have pd: "JSON_parse (body_text ?rd) = Ok ?d"
    using json_roundtrip [of ?d] by (simp add: str_ok_names str_ok_x del: JSON_stringify.simps)
  have r0: "read_websites ?e0 = Ok (JArr [])" by (simp add: read_websites_def KV_get_def)
  have r1: "read_websites ?e1 = Ok (JArr [JNull])"
    by (simp add: read_websites_def KV_get_def parse_null_array)
  have "handleApiRequest ?ra ?e0 corsHeaders
      = handleAddRequest JUndefined ?e0 corsHeaders"
    using handleApiRequest_dispatch [OF _ pa, of "JStr ''add''" ?e0 corsHeaders]
    by (simp add: get_prop_def prop_of_def del: JSON_stringify.simps)
  also have "\<dots> = Ok (json_response success corsHeaders,
      KV_put ''websites'' (JSON_stringify (JArr ([] @ [JUndefined]))) ?e0)"
    using r0 by (rule handleAddRequest_array)
  also have "KV_put ''websites'' (JSON_stringify (JArr ([] @ [JUndefined]))) ?e0 = ?e1"
    by (simp add: KV_put_def)
  finally show "fetch ?ra ?e0
      = Ok (\<lparr>status = 200, body = JSON_stringify (JObj [(''success'', JBool True)]),
           headers = (''Content-Type'', ''application/json'') # corsHeaders\<rparr>, ?e1)"
    using api by (simp add: fetch_def json_response_def success_def del: JSON_stringify.simps)
  have "handleApiRequest ?rd ?e1 corsHeaders
      = handleDeleteRequest (JStr ''x'') ?e1 corsHeaders"
    using handleApiRequest_dispatch [OF _ pd, of "JStr ''delete''" ?e1 corsHeaders]
    by (simp add: get_prop_def prop_of_def del: JSON_stringify.simps)
  also have "\<dots> = Ok (\<lparr>status = 500, body = ''Error deleting website'', headers = corsHeaders\<rparr>, ?e1)"
    using r1 by (rule handleDeleteRequest_null) simp
  finally show "fetch ?rd ?e1
      = Ok (\<lparr>status = 500, body = ''Error deleting website'', headers = corsHeaders\<rparr>, ?e1)"
    using api by (simp add: fetch_def del: JSON_stringify.simps)
  let ?xs = "[JObj [(''id'', JArr [JNum 1])]]"
  have ok: "list_all json_ok ?xs" by (simp add: str_ok_names)
  have r: "read_websites (store_of (JArr ?xs)) = Ok (JArr ?xs)"
    using ok by (rule read_store_of)
  have f: "filter (\<lambda>w. \<not> strict_eq (prop_of w ''id'') (JArr [JNum 1])) ?xs = ?xs"
    by (simp add: prop_of_def get_prop_def)
  from handleDeleteRequest_filter [OF r, of "JArr [JNum 1]" corsHeaders] read_after_put [OF ok]
  show "\<exists>e'. handleDeleteRequest (JArr [JNum 1]) (store_of (JArr ?xs)) corsHeaders
          = Ok (\<lparr>status = 200, body = JSON_stringify (JObj [(''success'', JBool True)]),
                  headers = (''Content-Type'', ''application/json'') # corsHeaders\<rparr>, e')
        \<and> read_websites e' = Ok (JArr ?xs)"
    unfolding f by (simp add: json_response_def success_def del: JSON_stringify.simps)
qed



text \<open>
  C6: when the value under the key \<^verbatim>\<open>websites\<close> is absent or JSON array text, then
  after any request the worker answers it is again absent or JSON array text, and every
  \<^verbatim>\<open>put\<close> the request made wrote JSON array text under that key. This covers the
  add, update and delete operations, which are the only ones that write.
\<close>

theorem collection_invariant:
  assumes "collection_ok e" and "fetch req e = Ok (r, e')"
  shows "collection_ok e'
       \<and> (\<exists>ws. puts e' = puts e @ ws
             \<and> list_all (\<lambda>kv. fst kv = ''websites'' \<and> is_array_text (snd kv)) ws)"
  using assms(1) fetch_step [OF assms] by (rule step_ok_collection)

theorem collection_invariant_witness:
  "collection_ok (store_of (JArr [JNum 1]))
   \<and> fetch \<lparr>req_method = ''POST'', pathname = ''/api/websites'',
        body_text = JSON_stringify
          (JObj [(''action'', JStr ''add''), (''data'', JObj [(''id'', JStr ''a'')])])\<rparr>
        (store_of (JArr [JNum 1]))
       = Ok (json_response success corsHeaders,
             KV_put ''websites'' (JSON_stringify (JArr [JNum 1, JObj [(''id'', JStr ''a'')]]))
               (store_of (JArr [JNum 1])))
   \<and> collection_ok
        (KV_put ''websites'' (JSON_stringify (JArr [JNum 1, JObj [(''id'', JStr ''a'')]]))
          (store_of (JArr [JNum 1])))
   \<and> (\<exists>ws. puts (KV_put ''websites'' (JSON_stringify (JArr [JNum 1, JObj [(''id'', JStr ''a'')]]))
                 (store_of (JArr [JNum 1])))
            = puts (store_of (JArr [JNum 1])) @ ws
          \<and> list_all (\<lambda>kv. fst kv = ''websites'' \<and> is_array_text (snd kv)) ws)"
proof -
  let ?d = "JObj [(''action'', JStr ''add''), (''data'', JObj [(''id'', JStr ''a'')])]"
  let ?req = "\<lparr>req_method = ''POST'', pathname = ''/api/websites'',
        body_text = JSON_stringify ?d\<rparr>"
  let ?e = "store_of (JArr [JNum 1])"
  let ?e' = "KV_put ''websites'' (JSON_stringify (JArr [JNum 1, JObj [(''id'', JStr ''a'')]])) ?e"
  have "is_array_text (JSON_stringify (JArr [JNum 1]))"
    by (rule array_text_written) simp
  then have c: "collection_ok ?e"
    by (simp add: collection_ok_def store_of_def KV_get_def del: JSON_stringify.simps)
  have m: "req_method ?req = ''POST''" by simp
  have p: "JSON_parse (body_text ?req) = Ok ?d"
    using json_roundtrip [of ?d]
    by (simp add: str_ok_names str_ok_more del: JSON_stringify.simps)
  have a: "get_prop ?d ''action'' = Ok (JStr ''add'')" by (simp add: get_prop_def)
  have r: "read_websites ?e = Ok (JArr [JNum 1])" by (rule read_store_of) simp
  have "handleApiRequest ?req ?e corsHeaders = Ok (json_response success corsHeaders, ?e')"
    unfolding handleApiRequest_dispatch [OF m p a] handleAddRequest_array [OF r]
    by (simp add: prop_of_def get_prop_def del: JSON_stringify.simps)
  then have f: "fetch ?req ?e = Ok (json_response success corsHeaders, ?e')"
    by (simp add: fetch_def startsWith_def starts_def del: JSON_stringify.simps)
  from collection_invariant [OF c f] c f show ?thesis
    by (intro conjI) (erule conjunct1, erule conjunct2 | assumption)+
qed

text \<open>
  C7: for a request whose body is valid JSON with the action \<^verbatim>\<open>get\<close>, the response is
  200 and its body is the text of the object \<^verbatim>\<open>{websites: X}\<close>, where \<open>X\<close> is the
  array stored under the key \<^verbatim>\<open>websites\<close>, or the empty array when the key is
  absent; the store is not changed.
\<close>

theorem get_returns_collection:
  assumes "req_method req = ''POST''" and "JSON_parse (body_text req) = Ok d"
    and "get_prop d ''action'' = Ok (JStr ''get'')"
    and "KV_get e ''websites'' = None \<and> xs = []
         \<or> (\<exists>t. KV_get e ''websites'' = Some t \<and> JSON_parse t = Ok (JArr xs))"
  shows "handleApiRequest req e cors
           = Ok (\<lparr>status = 200, body = JSON_stringify (JObj [(''websites'', JArr xs)]),
                  headers = (''Content-Type'', ''application/json'') # cors\<rparr>, e)
       \<and> JSON_parse (JSON_stringify (JObj [(''websites'', JArr xs)]))
           = Ok (JObj [(''websites'', JArr xs)])"
proof -
  have r: "read_websites e = Ok (JArr xs)" using assms(4) by (rule stored_read)
  from handleGetRequest_read [OF r, of cors] get_body_parses [OF read_websites_ok [OF r], of cors]
  show ?thesis
    unfolding handleApiRequest_dispatch [OF assms(1,2,3)]
    by (simp add: json_response_def del: JSON_stringify.simps)
qed

theorem get_returns_collection_witness:
  "req_method \<lparr>req_method = ''POST'', pathname = ''/api/websites'',
      body_text = JSON_stringify (JObj [(''action'', JStr ''get'')])\<rparr> = ''POST''
   \<and> JSON_parse (body_text \<lparr>req_method = ''POST'', pathname = ''/api/websites'',
      body_text = JSON_stringify (JObj [(''action'', JStr ''get'')])\<rparr>)
       = Ok (JObj [(''action'', JStr ''get'')])
   \<and> get_prop (JObj [(''action'', JStr ''get'')]) ''action'' = Ok (JStr ''get'')
   \<and> (KV_get \<lparr>WEBSITES_KV = Map.empty, puts = []\<rparr> ''websites'' = None \<and> ([]::json list) = []
       \<or> (\<exists>t. KV_get \<lparr>WEBSITES_KV = Map.empty, puts = []\<rparr> ''websites'' = Some t
              \<and> JSON_parse t = Ok (JArr [])))
   \<and> handleApiRequest \<lparr>req_method = ''POST'', pathname = ''/api/websites'',
        body_text = JSON_stringify (JObj [(''action'', JStr ''get'')])\<rparr>
        \<lparr>WEBSITES_KV = Map.empty, puts = []\<rparr> corsHeaders
       = Ok (\<lparr>status = 200, body = JSON_stringify (JObj [(''websites'', JArr [])]),
              headers = (''Content-Type'', ''application/json'') # corsHeaders\<rparr>,
             \<lparr>WEBSITES_KV = Map.empty, puts = []\<rparr>)
   \<and> JSON_parse (JSON_stringify (JObj [(''websites'', JArr [])]))
       = Ok (JObj [(''websites'', JArr [])])"
proof -
  let ?d = "JObj [(''action'', JStr ''get'')]"
  let ?req = "\<lparr>req_method = ''POST'', pathname = ''/api/websites'',
      body_text = JSON_stringify ?d\<rparr>"
  let ?e = "\<lparr>WEBSITES_KV = Map.empty, puts = []\<rparr>"
  have m: "req_method ?req = ''POST''" by simp
  have p: "JSON_parse (body_text ?req) = Ok ?d"
    using json_roundtrip [of ?d] by (simp add: str_ok_names del: JSON_stringify.simps)
  have a: "get_prop ?d ''action'' = Ok (JStr ''get'')" by (simp add: get_prop_def)
  have s: "KV_get ?e ''websites'' = None \<and> ([]::json list) = []
       \<or> (\<exists>t. KV_get ?e ''websites'' = Some t \<and> JSON_parse t = Ok (JArr []))"
    by (simp add: KV_get_def)
  from get_returns_collection [OF m p a s, of corsHeaders] m p a s show ?thesis
    by (intro conjI) (erule conjunct1, erule conjunct2 | assumption)+
qed

text \<open>
  C8: the static asset server takes one leading \<^verbatim>\<open>/\<close> off the path and looks the rest
  up in the store (a path without one is looked up as it is). A value that is found is
  the body of a 200 response whose content type follows the suffix of the key; when no
  value is found the response is 404 with a plain-text body.
\<close>

theorem static_file_served:
  "(\<forall>v. KV_get e key = Some v \<and> v \<noteq> [] \<longrightarrow>
      serveStaticFile (CHR ''/'' # key) e
        = (\<lparr>status = 200, body = v,
             headers = [(''Content-Type'', getContentType key)]\<rparr>, e))
   \<and> (KV_get e key = None \<longrightarrow>
      serveStaticFile (CHR ''/'' # key) e
        = (\<lparr>status = 404, body = ''File not found'',
             headers = [(''Content-Type'', ''text/plain'')]\<rparr>, e))
   \<and> (\<not> startsWith key ''/'' \<longrightarrow> serveStaticFile key e = serveStaticFile (CHR ''/'' # key) e)
   \<and> (endsWith key ''.html'' \<longrightarrow> getContentType key = ''text/html'')
   \<and> (endsWith key ''.css'' \<longrightarrow> getContentType key = ''text/css'')
   \<and> (endsWith key ''.js'' \<longrightarrow> getContentType key = ''application/javascript'')
   \<and> (endsWith key ''.png'' \<longrightarrow> getContentType key = ''image/png'')
   \<and> (endsWith key ''.jpg'' \<or> endsWith key ''.jpeg'' \<longrightarrow> getContentType key = ''image/jpeg'')
   \<and> (endsWith key ''.svg'' \<longrightarrow> getContentType key = ''image/svg+xml'')
   \<and> (\<not> endsWith key ''.html'' \<and> \<not> endsWith key ''.css'' \<and> \<not> endsWith key ''.js''
        \<and> \<not> endsWith key ''.png'' \<and> \<not> endsWith key ''.jpg'' \<and> \<not> endsWith key ''.jpeg''
        \<and> \<not> endsWith key ''.svg'' \<longrightarrow> getContentType key = ''application/octet-stream'')"
proof (intro conjI allI impI)
  show "serveStaticFile key e = serveStaticFile (CHR ''/'' # key) e" if "\<not> startsWith key ''/''"
    using that by (simp add: serveStaticFile_def startsWith_def starts_def)
  show "getContentType key = ''image/jpeg''" if "endsWith key ''.jpg'' \<or> endsWith key ''.jpeg''"
    using that by (auto simp: getContentType_table)
  show "getContentType key = ''application/octet-stream''"
    if "\<not> endsWith key ''.html'' \<and> \<not> endsWith key ''.css'' \<and> \<not> endsWith key ''.js''
        \<and> \<not> endsWith key ''.png'' \<and> \<not> endsWith key ''.jpg'' \<and> \<not> endsWith key ''.jpeg''
        \<and> \<not> endsWith key ''.svg''"
    using that by (simp add: getContentType_def)
qed (simp_all add: serveStaticFile_slash getContentType_table)

theorem static_file_served_witness:
  "KV_get \<lparr>WEBSITES_KV = [''logo.svg'' \<mapsto> ''<svg/>''], puts = []\<rparr> ''logo.svg'' = Some ''<svg/>''
   \<and> endsWith ''logo.svg'' ''.svg''
   \<and> serveStaticFile ''/logo.svg'' \<lparr>WEBSITES_KV = [''logo.svg'' \<mapsto> ''<svg/>''], puts = []\<rparr>
       = (\<lparr>status = 200, body = ''<svg/>'',
            headers = [(''Content-Type'', ''image/svg+xml'')]\<rparr>,
          \<lparr>WEBSITES_KV = [''logo.svg'' \<mapsto> ''<svg/>''], puts = []\<rparr>)
   \<and> KV_get \<lparr>WEBSITES_KV = [''logo.svg'' \<mapsto> ''<svg/>''], puts = []\<rparr> ''a.png'' = None
   \<and> serveStaticFile ''/a.png'' \<lparr>WEBSITES_KV = [''logo.svg'' \<mapsto> ''<svg/>''], puts = []\<rparr>
       = (\<lparr>status = 404, body = ''File not found'',
            headers = [(''Content-Type'', ''text/plain'')]\<rparr>,
          \<lparr>WEBSITES_KV = [''logo.svg'' \<mapsto> ''<svg/>''], puts = []\<rparr>)"
proof -
  let ?e = "\<lparr>WEBSITES_KV = [''logo.svg'' \<mapsto> ''<svg/>''], puts = []\<rparr>"
  have k: "KV_get ?e ''logo.svg'' = Some ''<svg/>''" by (simp add: KV_get_def)
  have s: "endsWith ''logo.svg'' ''.svg''" by (simp add: endsWith_def)
  have n: "KV_get ?e ''a.png'' = None" by (simp add: KV_get_def)
  from static_file_served [of ?e "''logo.svg''"] k s
  have a: "serveStaticFile ''/logo.svg'' ?e
       = (\<lparr>status = 200, body = ''<svg/>'',
            headers = [(''Content-Type'', ''image/svg+xml'')]\<rparr>, ?e)"
    by simp
  from static_file_served [of ?e "''a.png''"] n
  have b: "serveStaticFile ''/a.png'' ?e
       = (\<lparr>status = 404, body = ''File not found'',
            headers = [(''Content-Type'', ''text/plain'')]\<rparr>, ?e)"
    by simp
  from k s a n b show ?thesis by (intro conjI) assumption+
qed

text \<open>
  C9: when the value stored under an asset key is the empty string, the static asset
  server answers 404 \<^verbatim>\<open>File not found\<close>, as for a key that is absent.
\<close>

theorem empty_asset_not_found:
  assumes "KV_get e key = Some []"
  shows "serveStaticFile (CHR ''/'' # key) e
       = (\<lparr>status = 404, body = ''File not found'',
            headers = [(''Content-Type'', ''text/plain'')]\<rparr>, e)"
  using assms by (simp add: serveStaticFile_slash)

theorem empty_asset_not_found_witness:
  "KV_get \<lparr>WEBSITES_KV = [''style.css'' \<mapsto> ''''], puts = []\<rparr> ''style.css'' = Some []
   \<and> serveStaticFile ''/style.css'' \<lparr>WEBSITES_KV = [''style.css'' \<mapsto> ''''], puts = []\<rparr>
       = (\<lparr>status = 404, body = ''File not found'',
            headers = [(''Content-Type'', ''text/plain'')]\<rparr>,
          \<lparr>WEBSITES_KV = [''style.css'' \<mapsto> ''''], puts = []\<rparr>)"
proof -
  have k: "KV_get \<lparr>WEBSITES_KV = [''style.css'' \<mapsto> ''''], puts = []\<rparr> ''style.css'' = Some []"
    by (simp add: KV_get_def)
  from empty_asset_not_found [OF k] k show ?thesis by simp
qed

text \<open>
  C1: a request at an API path (one that names the handler script or begins with
  \<^verbatim>\<open>/api/\<close>) whose method is neither POST nor OPTIONS is to be answered 405. The
  dispatcher has the branch for it (\<open>handleApiRequest_not_post\<close>), but \<open>fetch\<close>
  calls the dispatcher for POST requests only, so the branch is never reached and no
  request is answered 405 (\<open>fetch_never_405\<close>). Here is the code on a GET request at
  each kind of API path, on an empty store: the static asset server answers 404.
\<close>

theorem api_path_get_not_405:
  "fetch \<lparr>req_method = ''GET'', pathname = ''/api/websites'', body_text = ''''\<rparr>
     \<lparr>WEBSITES_KV = Map.empty, puts = []\<rparr>
   = Ok (\<lparr>status = 404, body = ''File not found'',
           headers = [(''Content-Type'', ''text/plain'')]\<rparr>,
         \<lparr>WEBSITES_KV = Map.empty, puts = []\<rparr>)
   \<and> fetch \<lparr>req_method = ''GET'', pathname = ''/worker.js'', body_text = ''''\<rparr>
     \<lparr>WEBSITES_KV = Map.empty, puts = []\<rparr>
   = Ok (\<lparr>status = 404, body = ''File not found'',
           headers = [(''Content-Type'', ''text/plain'')]\<rparr>,
         \<lparr>WEBSITES_KV = Map.empty, puts = []\<rparr>)"
  by (simp add: fetch_def endsWith_def startsWith_def starts_def serveStaticFile_def KV_get_def)

end
